theory Spec2Isabelle
  imports Main "HOL-Library.Word" "HOL-Library.Sublist"
begin

section \<open>Strings and raw input chunks\<close>

text \<open>
  A raw input chunk is a Node \<open>Buffer\<close>: a list of bytes. A JavaScript string is a
  list of UTF-16 code units, written here as natural numbers.
\<close>

type_synonym byte = "8 word"
type_synonym jsstring = "nat list"

text \<open>
  \<open>data.toString()\<close> decodes the buffer as UTF-8, every ill-formed part becoming
  U+FFFD. The decoder is the runtime's; it is written out here as the state machine of the
  Encoding Standard: bytes still needed, the code point so far, and the bounds of the next
  continuation byte.
\<close>

definition code_units :: "nat \<Rightarrow> jsstring" where
  "code_units cp =
     (if cp < 0x10000 then [cp]
      else [0xD800 + (cp - 0x10000) div 0x400, 0xDC00 + (cp - 0x10000) mod 0x400])"

fun utf8_decode :: "nat \<Rightarrow> nat \<Rightarrow> nat \<Rightarrow> nat \<Rightarrow> nat list \<Rightarrow> jsstring" where
  "utf8_decode needed cp lo hi [] = (if needed = 0 then [] else [0xFFFD])"
| "utf8_decode needed cp lo hi (b # bs) =
     (if needed = 0 then
        (if b \<le> 0x7F then b # utf8_decode 0 0 0x80 0xBF bs
         else if 0xC2 \<le> b \<and> b \<le> 0xDF then utf8_decode 1 (b mod 0x20) 0x80 0xBF bs
         else if 0xE0 \<le> b \<and> b \<le> 0xEF then
           utf8_decode 2 (b mod 0x10) (if b = 0xE0 then 0xA0 else 0x80)
             (if b = 0xED then 0x9F else 0xBF) bs
         else if 0xF0 \<le> b \<and> b \<le> 0xF4 then
           utf8_decode 3 (b mod 8) (if b = 0xF0 then 0x90 else 0x80)
             (if b = 0xF4 then 0x8F else 0xBF) bs
         else 0xFFFD # utf8_decode 0 0 0x80 0xBF bs)
      else if b < lo \<or> hi < b then 0xFFFD # utf8_decode 0 0 0x80 0xBF (b # bs)
      else if needed = 1 then code_units (cp * 64 + b mod 64) @ utf8_decode 0 0 0x80 0xBF bs
      else utf8_decode (needed - 1) (cp * 64 + b mod 64) 0x80 0xBF bs)"

definition toString :: "byte list \<Rightarrow> jsstring" where
  "toString data = utf8_decode 0 0 0x80 0xBF (map unat data)"

section \<open>Constants of the session\<close>

definition MAX_HISTORY_SIZE :: nat where
  "MAX_HISTORY_SIZE = 1000"

definition CTRL_BRACKET :: byte where "CTRL_BRACKET = 0x1D"
definition CTRL_BACKSLASH :: byte where "CTRL_BACKSLASH = 0x1C"
definition CTRL_CARET :: byte where "CTRL_CARET = 0x1E"
definition CTRL_UNDERSCORE :: byte where "CTRL_UNDERSCORE = 0x1F"
definition ESCAPE :: byte where "ESCAPE = 0x1B"

text \<open>The escape character as a code unit, and the characters the patterns name.\<close>

definition ESC :: nat where "ESC = 0x1B"

text \<open>
  \<open>CSI_U_DETACH_SEQS\<close>: ESC [ 9 3 ; 5 u, ESC [ 9 2 ; 5 u, ESC [ 5 4 ; 5 u,
  ESC [ 4 5 ; 5 u, ESC [ 5 4 ; 6 u, ESC [ 4 5 ; 6 u.
\<close>

definition CSI_U_DETACH_SEQS :: "jsstring list" where
  "CSI_U_DETACH_SEQS =
     [[0x1B, 0x5B, 0x39, 0x33, 0x3B, 0x35, 0x75],
      [0x1B, 0x5B, 0x39, 0x32, 0x3B, 0x35, 0x75],
      [0x1B, 0x5B, 0x35, 0x34, 0x3B, 0x35, 0x75],
      [0x1B, 0x5B, 0x34, 0x35, 0x3B, 0x35, 0x75],
      [0x1B, 0x5B, 0x35, 0x34, 0x3B, 0x36, 0x75],
      [0x1B, 0x5B, 0x34, 0x35, 0x3B, 0x36, 0x75]]"

text \<open>\<open>FOCUS_IN_SEQ\<close> is ESC [ I and \<open>FOCUS_OUT_SEQ\<close> is ESC [ O.\<close>

definition FOCUS_IN_SEQ :: jsstring where
  "FOCUS_IN_SEQ = [0x1B, 0x5B, 0x49]"

definition FOCUS_OUT_SEQ :: jsstring where
  "FOCUS_OUT_SEQ = [0x1B, 0x5B, 0x4F]"

section \<open>Removing sequences from a string\<close>

text \<open>
  \<open>str.split(sep).join('')\<close> and \<open>str.replace(/re/g, '')\<close> both scan the string
  from the left and delete every match, continuing after the end of a deleted match. A
  matcher gives the length of the match that starts at the head of the string, 0 when there
  is none (no pattern of the session matches the empty string).
\<close>

function remove_matches :: "(jsstring \<Rightarrow> nat) \<Rightarrow> jsstring \<Rightarrow> jsstring" where
  "remove_matches m [] = []"
| "remove_matches m (c # cs) =
     (if m (c # cs) = 0 then c # remove_matches m cs
      else remove_matches m (drop (m (c # cs)) (c # cs)))"
  by pat_completeness auto
termination
  by (relation "measure (\<lambda>(m, s). length s)") auto

text \<open>A fixed separator matches where the string starts with it.\<close>

definition match_literal :: "jsstring \<Rightarrow> jsstring \<Rightarrow> nat" where
  "match_literal sep s =
     (if sep \<noteq> [] \<and> take (length sep) s = sep then length sep else 0)"

definition split_join :: "jsstring \<Rightarrow> jsstring \<Rightarrow> jsstring" where
  "split_join sep s = remove_matches (match_literal sep) s"

text \<open>
  The three regular expressions have one shape: a fixed prefix, then \<open>[\d;]*\<close>, then one
  character of a final class. The star is greedy, and a character of \<open>[\d;]\<close> is in no
  final class, so backtracking finds nothing: there is a match exactly when the character
  after the longest run of digits and semicolons is a final one.
\<close>

definition is_param :: "nat \<Rightarrow> bool" where
  "is_param c = ((0x30 \<le> c \<and> c \<le> 0x39) \<or> c = 0x3B)"

definition match_params :: "nat list \<Rightarrow> jsstring \<Rightarrow> nat" where
  "match_params finals u =
     (case dropWhile is_param u of
        [] \<Rightarrow> 0
      | f # _ \<Rightarrow> if f \<in> set finals then length (takeWhile is_param u) + 1 else 0)"

definition match_csi :: "jsstring \<Rightarrow> nat list \<Rightarrow> jsstring \<Rightarrow> nat" where
  "match_csi pre finals s =
     (if take (length pre) s = pre \<and> match_params finals (drop (length pre) s) \<noteq> 0
      then length pre + match_params finals (drop (length pre) s)
      else 0)"

text \<open>\<open>/\x1b\[\?[\d;]*[uc]/g\<close>, \<open>/\x1b\[>[\d;]*c/g\<close> and \<open>/\x1b\[[\d;]*u/g\<close>.\<close>

definition match_da_question :: "jsstring \<Rightarrow> nat" where
  "match_da_question = match_csi [0x1B, 0x5B, 0x3F] [0x75, 0x63]"

definition match_da_greater :: "jsstring \<Rightarrow> nat" where
  "match_da_greater = match_csi [0x1B, 0x5B, 0x3E] [0x63]"

definition match_csi_u :: "jsstring \<Rightarrow> nat" where
  "match_csi_u = match_csi [0x1B, 0x5B] [0x75]"

definition strip_focus :: "jsstring \<Rightarrow> jsstring" where
  "strip_focus str = split_join FOCUS_OUT_SEQ (split_join FOCUS_IN_SEQ str)"

definition strip_responses :: "jsstring \<Rightarrow> jsstring" where
  "strip_responses str =
     remove_matches match_csi_u
       (remove_matches match_da_greater (remove_matches match_da_question str))"

text \<open>\<open>str.includes(seq)\<close>: the sequence occurs somewhere in the string.\<close>

fun str_includes :: "jsstring \<Rightarrow> jsstring \<Rightarrow> bool" where
  "str_includes [] seq = (seq = [])"
| "str_includes (c # cs) seq = (take (length seq) (c # cs) = seq \<or> str_includes cs seq)"

section \<open>Messages, adapters and PTY managers\<close>

datatype role = User | Assistant

record message =
  tool :: string
  role :: role
  content :: jsstring

text \<open>
  The adapter of a tool is an external collaborator (\<open>AdapterRegistry\<close>,
  \<open>adapters/base\<close>). The session reads its name, its presentation data and its
  \<open>cleanResponse\<close> function, which is taken as it comes.
\<close>

record adapter =
  name :: string
  displayName :: string
  color :: string
  cleanResponse :: "jsstring \<Rightarrow> jsstring"

datatype PtyState = SPAWNING | READY | ATTACHED | DETACHED | PROCESSING | DEAD

text \<open>
  Modelled from the spec: the class \<open>PersistentPtyManager\<close> (\<open>persistent-pty\<close>) is
  not part of the sources at hand. A manager is the spec's Session: the configuration it was
  created with, its state, the \<open>attached\<close> flag, the output buffer and the process handle
  (\<open>hasPty\<close>: \<open>getPty()\<close> is not null). \<open>ptyInput\<close> records what has been written
  to the subprocess's input stream, one entry for each write.
\<close>

record manager =
  config :: adapter
  state :: PtyState
  attached :: bool
  outputBuffer :: jsstring
  hasPty :: bool
  ptyInput :: "jsstring list"

text \<open>Modelled from the spec: a manager that has just been constructed, before
  \<open>spawn\<close>.\<close>

definition new_manager :: "adapter \<Rightarrow> manager" where
  "new_manager a =
     \<lparr>config = a, state = SPAWNING, attached = False, outputBuffer = [], hasPty = False,
      ptyInput = []\<rparr>"

text \<open>Modelled from the spec: \<open>isDead()\<close>, the state is \<open>DEAD\<close>.\<close>

definition isDead :: "manager \<Rightarrow> bool" where
  "isDead m = (state m = DEAD)"

text \<open>Modelled from the spec: \<open>isUserAttached()\<close> reads the \<open>attached\<close> flag.\<close>

definition isUserAttached :: "manager \<Rightarrow> bool" where
  "isUserAttached m = attached m"

text \<open>
  Modelled from the spec: \<open>spawn(cwd, waitForReady)\<close> launches the subprocess; a
  launch that fails leaves the manager as it was and raises. Without \<open>waitForReady\<close>
  the manager is returned in \<open>SPAWNING\<close>, with it the caller resumes in \<open>READY\<close>.
\<close>

definition spawn :: "bool \<Rightarrow> manager \<Rightarrow> manager" where
  "spawn waitForReady m =
     m\<lparr>hasPty := True, state := (if waitForReady then READY else SPAWNING)\<rparr>"

text \<open>
  Modelled from the spec: \<open>attach()\<close> sets the flag and moves to \<open>ATTACHED\<close>;
  \<open>detach()\<close> clears the flag and moves to \<open>DETACHED\<close>. No state is left once it is
  \<open>DEAD\<close>. Neither looks at any other manager.
\<close>

definition attach :: "manager \<Rightarrow> manager" where
  "attach m = m\<lparr>attached := True, state := (if state m = DEAD then DEAD else ATTACHED)\<rparr>"

definition detach :: "manager \<Rightarrow> manager" where
  "detach m = m\<lparr>attached := False, state := (if state m = DEAD then DEAD else DETACHED)\<rparr>"

text \<open>Modelled from the spec: \<open>write(data)\<close> sends the text to the subprocess, and
  is a no-op on a dead manager.\<close>

definition manager_write :: "jsstring \<Rightarrow> manager \<Rightarrow> manager" where
  "manager_write str m = (if state m = DEAD then m else m\<lparr>ptyInput := ptyInput m @ [str]\<rparr>)"

text \<open>Modelled from the spec: \<open>kill()\<close> terminates the subprocess and releases the
  handle.\<close>

definition kill :: "manager \<Rightarrow> manager" where
  "kill m = m\<lparr>state := DEAD, hasPty := False\<rparr>"

section \<open>The session object and its terminal\<close>

text \<open>
  What is written to the terminal: \<open>process.stdout.write\<close> with its text, and the
  decorated \<open>console.log\<close> lines by what they announce.
\<close>

datatype notice =
    Reattaching | FirstLaunch | DetachHint | Detached | EnteringInteractive
  | PleaseWait | Thinking | Rendered jsstring | Failed | DebugKeys "byte list"

datatype out_event = Raw jsstring | Log notice

datatype error = UnknownTool string | SpawnError | PtyNotAvailable | SendError

text \<open>
  The fields of \<open>SDKSession\<close>, the terminal (\<open>process.stdin\<close>,
  \<open>process.stdout\<close>) and the variables that \<open>runInteractiveSession\<close> closes over.
  Managers are objects: \<open>heap\<close> holds them by reference, \<open>ptyManagers\<close> maps a tool
  to a reference, and the interactive session keeps the reference it was started with.
  \<open>spawnLog\<close> lists the managers \<open>spawn\<close> was called on.
\<close>

record sdk =
  activeTool :: string
  conversationHistory :: "message list"
  registry :: "string \<rightharpoonup> adapter"
  ptyManagers :: "string \<rightharpoonup> nat"
  heap :: "nat \<Rightarrow> manager"
  nextRef :: nat
  spawnLog :: "nat list"
  requestInProgress :: bool
  rl :: bool
  isTTY :: bool
  rawMode :: bool
  stdout :: "out_event list"
  stdinListener :: bool
  resizeListener :: bool
  debugKeys :: bool
  sessManager :: nat
  detached :: bool
  lastEscapeTime :: int
  cleanedUp :: bool
  resolved :: bool

definition update_manager :: "nat \<Rightarrow> (manager \<Rightarrow> manager) \<Rightarrow> sdk \<Rightarrow> sdk" where
  "update_manager r f s = s\<lparr>heap := (heap s)(r := f (heap s r))\<rparr>"

definition emit :: "out_event list \<Rightarrow> sdk \<Rightarrow> sdk" where
  "emit evs s = s\<lparr>stdout := stdout s @ evs\<rparr>"

section \<open>Conversation history\<close>

text \<open>\<open>while (history.length > MAX_HISTORY_SIZE) history.shift()\<close>\<close>

function enforce_history_limit :: "message list \<Rightarrow> message list" where
  "enforce_history_limit h =
     (if length h > MAX_HISTORY_SIZE then enforce_history_limit (tl h) else h)"
  by pat_completeness auto
termination
  by (relation "measure length") (auto simp: MAX_HISTORY_SIZE_def)

declare enforce_history_limit.simps [simp del]

definition push_history :: "message \<Rightarrow> sdk \<Rightarrow> sdk" where
  "push_history msg s =
     s\<lparr>conversationHistory := enforce_history_limit (conversationHistory s @ [msg])\<rparr>"

section \<open>The interactive session\<close>

text \<open>
  \<open>runInteractiveSession\<close> up to the point where it waits for input: without a PTY it
  rejects; otherwise it listens for resizes, puts a TTY into raw mode, and starts with fresh
  \<open>detached\<close>, \<open>lastEscapeTime\<close> and \<open>cleanedUp\<close>.
\<close>

definition runInteractiveSession :: "nat \<Rightarrow> sdk \<Rightarrow> error + sdk" where
  "runInteractiveSession r s =
     (if \<not> hasPty (heap s r) then Inl PtyNotAvailable
      else Inr (s\<lparr>resizeListener := True,
                  rawMode := (if isTTY s then True else rawMode s),
                  sessManager := r, detached := False, lastEscapeTime := 0,
                  stdinListener := True, cleanedUp := False, resolved := False\<rparr>))"

text \<open>
  The texts \<open>cleanup\<close> writes: clear the line (ESC [ 2 K CR), focus reporting off
  (ESC [ ? 1 0 0 4 l), bracketed paste off (ESC [ ? 2 0 0 4 l), keyboard enhancement reset
  (ESC [ > 0 u), cursor shown (ESC [ ? 2 5 h).
\<close>

definition CLEAR_LINE :: jsstring where
  "CLEAR_LINE = [0x1B, 0x5B, 0x32, 0x4B, 0x0D]"

definition RESTORE_WRITES :: "out_event list" where
  "RESTORE_WRITES =
     [Raw CLEAR_LINE,
      Raw [0x1B, 0x5B, 0x3F, 0x31, 0x30, 0x30, 0x34, 0x6C],
      Raw [0x1B, 0x5B, 0x3F, 0x32, 0x30, 0x30, 0x34, 0x6C],
      Raw [0x1B, 0x5B, 0x3E, 0x30, 0x75],
      Raw [0x1B, 0x5B, 0x3F, 0x32, 0x35, 0x68]]"

text \<open>The \<open>cleanup\<close> closure of \<open>runInteractiveSession\<close>; it ends by setting up
  readline again.\<close>

definition session_cleanup :: "sdk \<Rightarrow> sdk" where
  "session_cleanup s =
     (if cleanedUp s then s
      else
        let s1 = s\<lparr>cleanedUp := True, stdinListener := False, resizeListener := False\<rparr>;
            s2 = emit RESTORE_WRITES s1;
            s3 = (if isTTY s2 then s2\<lparr>rawMode := False\<rparr> else s2)
        in s3\<lparr>rl := True\<rparr>)"

definition performDetach :: "sdk \<Rightarrow> sdk" where
  "performDetach s =
     (if detached s then s
      else
        let s1 = s\<lparr>detached := True, stdinListener := False\<rparr>;
            buffer = outputBuffer (heap s1 (sessManager s1));
            s2 = update_manager (sessManager s1) detach s1;
            s3 = session_cleanup s2;
            s4 =
              (if buffer \<noteq> [] then
                 (case registry s3 (activeTool s3) of
                    None \<Rightarrow> s3
                  | Some a \<Rightarrow>
                      let cleanedResponse = cleanResponse a buffer
                      in if length cleanedResponse > 20
                         then push_history
                                \<lparr>tool = activeTool s3, role = Assistant,
                                 content = cleanedResponse\<rparr> s3
                         else s3)
               else s3);
            s5 = emit [Raw CLEAR_LINE, Log Detached] s4
        in s5\<lparr>resolved := True\<rparr>)"

text \<open>The three scans of \<open>onStdinData\<close>: a CSI u detach sequence in the filtered
  text, a detach key among the bytes of the chunk, two adjacent escape bytes in the chunk.\<close>

definition has_csi_u_detach :: "jsstring \<Rightarrow> bool" where
  "has_csi_u_detach str = list_ex (\<lambda>seq. str = seq \<or> str_includes str seq) CSI_U_DETACH_SEQS"

definition is_detach_key :: "byte \<Rightarrow> bool" where
  "is_detach_key b =
     (b = CTRL_BRACKET \<or> b = CTRL_BACKSLASH \<or> b = CTRL_CARET \<or> b = CTRL_UNDERSCORE)"

definition has_detach_key :: "byte list \<Rightarrow> bool" where
  "has_detach_key data = list_ex is_detach_key data"

fun has_double_escape :: "byte list \<Rightarrow> bool" where
  "has_double_escape (x # y # ys) = ((x = ESCAPE \<and> y = ESCAPE) \<or> has_double_escape (y # ys))"
| "has_double_escape _ = False"

text \<open>With \<open>AIC_DEBUG=1\<close> the listener first prints the bytes it received.\<close>

definition debug_logged :: "byte list \<Rightarrow> sdk \<Rightarrow> sdk" where
  "debug_logged data s = (if debugKeys s then emit [Log (DebugKeys data)] s else s)"

text \<open>The listener on raw input; \<open>now\<close> is what \<open>Date.now()\<close> returns.\<close>

definition onStdinData :: "int \<Rightarrow> byte list \<Rightarrow> sdk \<Rightarrow> sdk" where
  "onStdinData now data s0 =
     (let s = debug_logged data s0;
          str = toString data
      in if str = FOCUS_IN_SEQ \<or> str = FOCUS_OUT_SEQ then s
         else
           let str = strip_responses (strip_focus str)
           in if str = [] then s
              else if has_csi_u_detach str then performDetach s
              else if has_detach_key data then performDetach s
              else if length data \<ge> 2 \<and> has_double_escape data then performDetach s
              else if length data = 1 \<and> data ! 0 = ESCAPE then
                (if now - lastEscapeTime s < 500 then performDetach s
                 else update_manager (sessManager s) (manager_write str)
                        (s\<lparr>lastEscapeTime := now\<rparr>))
              else update_manager (sessManager s) (manager_write str)
                     (s\<lparr>lastEscapeTime := 0\<rparr>))"

section \<open>Auxiliary notions for the proofs\<close>

text \<open>A character that no match of the matcher ever contains.\<close>

definition avoids :: "(jsstring \<Rightarrow> nat) \<Rightarrow> nat \<Rightarrow> bool" where
  "avoids m c = (\<forall>s. c \<notin> set (take (m s) s))"

text \<open>The code units of the four detach keys.\<close>

definition control_char :: "nat \<Rightarrow> bool" where
  "control_char c = (c = 0x1C \<or> c = 0x1D \<or> c = 0x1E \<or> c = 0x1F)"

text \<open>
  The same scan on a string whose code units carry a tag, here their position in the chunk:
  the matcher sees the code units, the tags travel with them. It serves to say which
  positions of a chunk survive the filters.
\<close>

function remove_matches_tagged :: "(jsstring \<Rightarrow> nat) \<Rightarrow> ('a \<times> nat) list \<Rightarrow> ('a \<times> nat) list" where
  "remove_matches_tagged m [] = []"
| "remove_matches_tagged m (x # xs) =
     (if m (map snd (x # xs)) = 0 then x # remove_matches_tagged m xs
      else remove_matches_tagged m (drop (m (map snd (x # xs))) (x # xs)))"
  by pat_completeness auto

termination
  by (relation "measure (\<lambda>(m, s). length s)") auto

text \<open>A matcher whose matches start with ESC, stay inside the string, and are decided
  before the next ESC.\<close>

definition esc_led :: "(jsstring \<Rightarrow> nat) \<Rightarrow> bool" where
  "esc_led m = ((\<forall>s. m s \<le> length s) \<and> (\<forall>s. m s \<noteq> 0 \<longrightarrow> s \<noteq> [] \<and> hd s = ESC)
      \<and> (\<forall>s t. s \<noteq> [] \<longrightarrow> m (s @ ESC # t) = m s))"

text \<open>A text that starts with ESC and holds no other ESC; a matcher that deletes such a
  text wherever it stands, or leaves it wherever it stands.\<close>

definition seq_like :: "jsstring \<Rightarrow> bool" where
  "seq_like q = (q \<noteq> [] \<and> hd q = ESC \<and> ESC \<notin> set (tl q))"

definition takes :: "(jsstring \<Rightarrow> nat) \<Rightarrow> jsstring \<Rightarrow> bool" where
  "takes m q = (\<forall>x. m (q @ x) = length q)"

definition skips :: "(jsstring \<Rightarrow> nat) \<Rightarrow> jsstring \<Rightarrow> bool" where
  "skips m q = (\<forall>x. m (q @ x) = 0)"

text \<open>The five deletions of \<open>onStdinData\<close> in their order, and the whole filter on a
  tagged string.\<close>

definition FILTERS :: "(jsstring \<Rightarrow> nat) list" where
  "FILTERS = [match_literal FOCUS_IN_SEQ, match_literal FOCUS_OUT_SEQ, match_da_question,
              match_da_greater, match_csi_u]"

definition filter_tagged :: "('a \<times> nat) list \<Rightarrow> ('a \<times> nat) list" where
  "filter_tagged T = fold remove_matches_tagged FILTERS T"

text \<open>
  The sequences that must not reach a subprocess, written out and not taken from the
  patterns of the code: the focus reports ESC [ I and ESC [ O, and, for a parameter text
  \<open>ps\<close> of digits and semicolons, the responses ESC [ ? \<open>ps\<close> c, ESC [ ? \<open>ps\<close> u,
  ESC [ > \<open>ps\<close> c and ESC [ \<open>ps\<close> u.
\<close>

definition parameter_text :: "jsstring \<Rightarrow> bool" where
  "parameter_text ps = list_all (\<lambda>c. (0x30 \<le> c \<and> c \<le> 0x39) \<or> c = 0x3B) ps"

definition report_or_response :: "jsstring \<Rightarrow> jsstring \<Rightarrow> bool" where
  "report_or_response ps q =
     (q = [0x1B, 0x5B, 0x49] \<or> q = [0x1B, 0x5B, 0x4F]
      \<or> (parameter_text ps
          \<and> (q = [0x1B, 0x5B, 0x3F] @ ps @ [0x63] \<or> q = [0x1B, 0x5B, 0x3F] @ ps @ [0x75]
             \<or> q = [0x1B, 0x5B, 0x3E] @ ps @ [0x63] \<or> q = [0x1B, 0x5B] @ ps @ [0x75])))"

section \<open>The registry of managers\<close>

text \<open>The constructor: no history, no managers, readline not yet set up. No manager has
  been allocated; the cells of the heap hold a manager of no tool.\<close>

definition blank_adapter :: adapter where
  "blank_adapter = \<lparr>name = [], displayName = [], color = [], cleanResponse = (\<lambda>raw. raw)\<rparr>"

definition new_session :: "(string \<rightharpoonup> adapter) \<Rightarrow> string \<Rightarrow> bool \<Rightarrow> bool \<Rightarrow> sdk" where
  "new_session reg defaultTool tty dbg =
     \<lparr>activeTool = defaultTool, conversationHistory = [], registry = reg,
      ptyManagers = Map.empty,
      heap = (\<lambda>r. new_manager blank_adapter),
      nextRef = 0, spawnLog = [], requestInProgress = False, rl = False, isTTY = tty,
      rawMode = False, stdout = [], stdinListener = False, resizeListener = False,
      debugKeys = dbg, sessManager = 0, detached = False, lastEscapeTime = 0,
      cleanedUp = False, resolved = False\<rparr>"

text \<open>
  \<open>getOrCreateManager(tool, waitForReady)\<close>. \<open>spawnOk\<close> says whether the launch
  succeeds; when it does not, \<open>spawn\<close> raises after the manager has been registered.
  The result is the reference of the manager, or the error raised.
\<close>

definition live_manager :: "sdk \<Rightarrow> string \<Rightarrow> nat option" where
  "live_manager s t =
     (case ptyManagers s t of
        None \<Rightarrow> None
      | Some r \<Rightarrow> if isDead (heap s r) then None else Some r)"

definition getOrCreateManager :: "string \<Rightarrow> bool \<Rightarrow> bool \<Rightarrow> sdk \<Rightarrow> (error + nat) \<times> sdk" where
  "getOrCreateManager t waitForReady spawnOk s =
     (case live_manager s t of
        Some r \<Rightarrow> (Inr r, s)
      | None \<Rightarrow>
          (case registry s t of
             None \<Rightarrow> (Inl (UnknownTool t), s)
           | Some a \<Rightarrow>
               let r = nextRef s;
                   s1 = s\<lparr>heap := (heap s)(r := new_manager a), nextRef := Suc r,
                          ptyManagers := (ptyManagers s)(t \<mapsto> r),
                          spawnLog := spawnLog s @ [r]\<rparr>
               in if spawnOk then (Inr r, update_manager r (spawn waitForReady) s1)
                  else (Inl SpawnError, s1)))"

text \<open>
  \<open>sendToTool(message)\<close>; \<open>outcome\<close> is what \<open>adapter.send\<close> resolves to, or the
  error it rejects with. A live manager of the active tool is killed silently and taken
  out of the map first; a request that fails takes the user message back out of the
  history.
\<close>

definition kill_existing :: "sdk \<Rightarrow> sdk" where
  "kill_existing s =
     (case live_manager s (activeTool s) of
        None \<Rightarrow> s
      | Some r \<Rightarrow>
          (update_manager r kill s)\<lparr>ptyManagers := (ptyManagers s)(activeTool s := None)\<rparr>)"

definition request_failed :: "sdk \<Rightarrow> sdk" where
  "request_failed s =
     (emit [Log Failed] s)\<lparr>conversationHistory := butlast (conversationHistory s)\<rparr>"

definition sendToTool :: "jsstring \<Rightarrow> error + jsstring \<Rightarrow> sdk \<Rightarrow> sdk" where
  "sendToTool message outcome s =
     (if requestInProgress s then emit [Log PleaseWait] s
      else
        let s1 = push_history \<lparr>tool = activeTool s, role = User, content = message\<rparr>
                   (s\<lparr>requestInProgress := True\<rparr>);
            s2 = emit [Log Thinking] s1;
            s3 = kill_existing s2;
            s4 = (case registry s3 (activeTool s3) of
                    None \<Rightarrow> request_failed s3
                  | Some a \<Rightarrow>
                      (case outcome of
                         Inl e \<Rightarrow> request_failed s3
                       | Inr response \<Rightarrow>
                           push_history
                             \<lparr>tool = activeTool s3, role = Assistant, content = response\<rparr>
                             (emit [Log (Rendered response)] s3)))
        in s4\<lparr>requestInProgress := False\<rparr>)"

text \<open>The method \<open>cleanup()\<close> of the session: kill every live manager, clear the map.\<close>

definition cleanup :: "sdk \<Rightarrow> sdk" where
  "cleanup s =
     s\<lparr>heap := (\<lambda>r. if r \<in> ran (ptyManagers s) \<and> \<not> isDead (heap s r)
                      then kill (heap s r) else heap s r),
       ptyManagers := Map.empty\<rparr>"

section \<open>Entering interactive mode\<close>

text \<open>The text that clears the screen, ESC [ 2 J ESC [ H.\<close>

definition CLEAR_SCREEN :: jsstring where
  "CLEAR_SCREEN = [0x1B, 0x5B, 0x32, 0x4A, 0x1B, 0x5B, 0x48]"

text \<open>
  \<open>enterInteractiveMode\<close> waits for the rainbow animation in its middle, and the
  subprocesses go on running meanwhile. The part before the wait gets the manager and
  computes \<open>isReattach\<close> and \<open>isFirstLaunch\<close>; the part after it replays the buffer
  (\<open>replay_buffer\<close>), marks the manager attached and starts the interactive session
  (\<open>attach_and_run\<close>, the common end of the three ways in).
\<close>

definition enterInteractiveMode_begin ::
    "bool \<Rightarrow> sdk \<Rightarrow> (error + nat \<times> bool \<times> bool) \<times> sdk" where
  "enterInteractiveMode_begin spawnOk s =
     (let isFirstLaunch = (live_manager s (activeTool s) = None)
      in case getOrCreateManager (activeTool s) False spawnOk s of
           (Inl e, s1) \<Rightarrow> (Inl e, s1)
         | (Inr r, s1) \<Rightarrow>
             let isReattach = (isUserAttached (heap s1 r) = False \<and> state (heap s1 r) \<noteq> DEAD)
             in (Inr (r, isReattach, isFirstLaunch),
                 emit [Log EnteringInteractive] (s1\<lparr>rl := False\<rparr>)))"

definition attach_and_run :: "nat \<Rightarrow> sdk \<Rightarrow> error option \<times> sdk" where
  "attach_and_run r s =
     (case runInteractiveSession r (update_manager r attach s) of
        Inl e \<Rightarrow> (Some e, update_manager r attach s)
      | Inr s' \<Rightarrow> (None, s'))"

definition replay_buffer :: "nat \<times> bool \<times> bool \<Rightarrow> sdk \<Rightarrow> sdk" where
  "replay_buffer locals s =
     (case locals of (r, isReattach, isFirstLaunch) \<Rightarrow>
        if isReattach \<and> outputBuffer (heap s r) \<noteq> [] then
          emit [Log Reattaching, Raw CLEAR_SCREEN, Raw (strip_focus (outputBuffer (heap s r)))] s
        else if isFirstLaunch then emit [Log FirstLaunch] s
        else s)"

definition enterInteractiveMode_finish :: "nat \<times> bool \<times> bool \<Rightarrow> sdk \<Rightarrow> error option \<times> sdk" where
  "enterInteractiveMode_finish locals s =
     attach_and_run (fst locals)
       (emit [Log DetachHint] (replay_buffer locals (emit [Raw [0x0A]] s)))"

text \<open>
  \<open>enterInteractiveModeWithCommand\<close> and \<open>enterInteractiveModeWithPrompt\<close> get the
  manager, attach and start the interactive session; the text they type into the subprocess
  arrives later, character by character, from timers.
\<close>

definition enterInteractiveModeWithCommand :: "bool \<Rightarrow> sdk \<Rightarrow> error option \<times> sdk" where
  "enterInteractiveModeWithCommand spawnOk s =
     (case getOrCreateManager (activeTool s) False spawnOk s of
        (Inl e, s1) \<Rightarrow> (Some e, s1)
      | (Inr r, s1) \<Rightarrow> attach_and_run r (emit [Log DetachHint] (s1\<lparr>rl := False\<rparr>)))"

definition enterInteractiveModeWithPrompt :: "bool \<Rightarrow> sdk \<Rightarrow> error option \<times> sdk" where
  "enterInteractiveModeWithPrompt spawnOk s =
     (case getOrCreateManager (activeTool s) False spawnOk s of
        (Inl e, s1) \<Rightarrow> (Some e, s1)
      | (Inr r, s1) \<Rightarrow> attach_and_run r (emit [Log DetachHint] (s1\<lparr>rl := False\<rparr>)))"

section \<open>What the subprocesses do\<close>

text \<open>
  Modelled from the spec: the subprocess of a manager exits, at any time; the manager
  becomes \<open>DEAD\<close> and gives up its handle.
\<close>

definition process_exit :: "manager \<Rightarrow> manager" where
  "process_exit m = m\<lparr>state := DEAD, hasPty := False\<rparr>"

text \<open>
  Modelled from the spec: the subprocess of a live manager prints \<open>text\<close>. It is appended
  to the buffer, which keeps its last \<open>cap\<close> code units; \<open>ready\<close> says whether the
  output now matches the ready pattern, which moves \<open>SPAWNING\<close> to \<open>READY\<close>. The text
  goes to the terminal when the manager is attached.
\<close>

definition buffer_output :: "nat \<Rightarrow> bool \<Rightarrow> jsstring \<Rightarrow> manager \<Rightarrow> manager" where
  "buffer_output cap ready text m =
     m\<lparr>outputBuffer :=
         drop (length (outputBuffer m @ text) - cap) (outputBuffer m @ text),
       state := (if state m = SPAWNING \<and> ready then READY else state m)\<rparr>"

definition process_data :: "nat \<Rightarrow> nat \<Rightarrow> bool \<Rightarrow> jsstring \<Rightarrow> sdk \<Rightarrow> sdk" where
  "process_data r cap ready text s =
     (if state (heap s r) = DEAD then s
      else
        let s1 = update_manager r (buffer_output cap ready text) s
        in if attached (heap s r) then emit [Raw text] s1 else s1)"

section \<open>Runs of the session\<close>

text \<open>
  Where the control is: in the prompt loop, waiting inside \<open>enterInteractiveMode\<close> with
  its local variables, in an interactive session, or stopped (the process has exited, or an
  error has ended the prompt loop).
\<close>

datatype mode = Prompting | Entering "nat \<times> bool \<times> bool" | Interactive | Stopped

text \<open>
  The states a session can reach. The prompt loop handles one line after the other and
  waits for each to finish; input chunks reach \<open>onStdinData\<close> while it is registered;
  subprocesses print and exit at any time, and the timers of the typing helpers write to a
  manager; anything may be printed.
\<close>

inductive reachable :: "mode \<times> sdk \<Rightarrow> bool" where
  start: "reachable (Prompting, (new_session reg t tty dbg)\<lparr>rl := True\<rparr>)"
| print: "reachable (m, s) \<Longrightarrow> reachable (m, emit evs s)"
| switch: "reachable (Prompting, s) \<Longrightarrow> reachable (Prompting, s\<lparr>activeTool := t\<rparr>)"
| send: "reachable (Prompting, s) \<Longrightarrow> reachable (Prompting, sendToTool message outcome s)"
| clear: "reachable (Prompting, s) \<Longrightarrow>
          reachable (Prompting, (cleanup s)\<lparr>conversationHistory := []\<rparr>)"
| quit: "reachable (Prompting, s) \<Longrightarrow> reachable (Stopped, cleanup s)"
| enter_fails: "reachable (Prompting, s) \<Longrightarrow>
          enterInteractiveMode_begin spawnOk s = (Inl e, s') \<Longrightarrow> reachable (Stopped, s')"
| enter_waits: "reachable (Prompting, s) \<Longrightarrow>
          enterInteractiveMode_begin spawnOk s = (Inr locals, s') \<Longrightarrow>
          reachable (Entering locals, s')"
| enter_rejects: "reachable (Entering locals, s) \<Longrightarrow>
          enterInteractiveMode_finish locals s = (Some e, s') \<Longrightarrow> reachable (Stopped, s')"
| enter_runs: "reachable (Entering locals, s) \<Longrightarrow>
          enterInteractiveMode_finish locals s = (None, s') \<Longrightarrow> reachable (Interactive, s')"
| command_fails: "reachable (Prompting, s) \<Longrightarrow>
          enterInteractiveModeWithCommand spawnOk s = (Some e, s') \<Longrightarrow>
          reachable (Stopped, s')"
| command_runs: "reachable (Prompting, s) \<Longrightarrow>
          enterInteractiveModeWithCommand spawnOk s = (None, s') \<Longrightarrow>
          reachable (Interactive, s')"
| prompt_fails: "reachable (Prompting, s) \<Longrightarrow>
          enterInteractiveModeWithPrompt spawnOk s = (Some e, s') \<Longrightarrow>
          reachable (Stopped, s')"
| prompt_runs: "reachable (Prompting, s) \<Longrightarrow>
          enterInteractiveModeWithPrompt spawnOk s = (None, s') \<Longrightarrow>
          reachable (Interactive, s')"
| input: "reachable (Interactive, s) \<Longrightarrow>
          reachable (if detached (onStdinData now data s) then Prompting else Interactive,
                     onStdinData now data s)"
| exits: "reachable (m, s) \<Longrightarrow> reachable (m, update_manager r process_exit s)"
| prints: "reachable (m, s) \<Longrightarrow> reachable (m, process_data r cap ready text s)"
| typed: "reachable (m, s) \<Longrightarrow> reachable (m, update_manager r (manager_write text) s)"

section \<open>Invariants of the runs\<close>

text \<open>No registered manager is attached; no registered manager other than \<open>r\<close> is
  attached; at most one tool has an attached manager registered.\<close>

definition no_attached :: "sdk \<Rightarrow> bool" where
  "no_attached s = (\<forall>t r. ptyManagers s t = Some r \<longrightarrow> \<not> attached (heap s r))"

definition only_attached :: "nat \<Rightarrow> sdk \<Rightarrow> bool" where
  "only_attached r s = (\<forall>t r'. ptyManagers s t = Some r' \<and> attached (heap s r') \<longrightarrow> r' = r)"

definition at_most_one_attached :: "sdk \<Rightarrow> bool" where
  "at_most_one_attached s =
     (\<forall>t t' r r'. ptyManagers s t = Some r \<and> attached (heap s r)
          \<and> ptyManagers s t' = Some r' \<and> attached (heap s r') \<longrightarrow> t = t')"

text \<open>Registered references have been allocated, belong to one tool each, and to a tool
  with an adapter.\<close>

definition wf_registry :: "sdk \<Rightarrow> bool" where
  "wf_registry s =
     ((\<forall>t r. ptyManagers s t = Some r \<longrightarrow> r < nextRef s \<and> registry s t \<noteq> None)
      \<and> (\<forall>t t' r. ptyManagers s t = Some r \<and> ptyManagers s t' = Some r \<longrightarrow> t = t'))"

definition run_inv :: "mode \<times> sdk \<Rightarrow> bool" where
  "run_inv c =
     (case c of (m, s) \<Rightarrow>
        wf_registry s \<and> length (conversationHistory s) \<le> MAX_HISTORY_SIZE
        \<and> (case m of
              Prompting \<Rightarrow> no_attached s
            | Entering l \<Rightarrow> no_attached s
            | Interactive \<Rightarrow> only_attached (sessManager s) s \<and> \<not> detached s \<and> \<not> cleanedUp s
            | Stopped \<Rightarrow> at_most_one_attached s))"

definition quiet :: "sdk \<Rightarrow> sdk \<Rightarrow> bool" where
  "quiet s s' =
     (ptyManagers s' = ptyManagers s \<and> nextRef s' = nextRef s \<and> registry s' = registry s
      \<and> (\<forall>r. attached (heap s' r) = attached (heap s r))
      \<and> conversationHistory s' = conversationHistory s \<and> sessManager s' = sessManager s
      \<and> detached s' = detached s \<and> cleanedUp s' = cleanedUp s)"

section \<open>A concrete session\<close>

text \<open>
  Two adapters whose \<open>cleanResponse\<close> returns the text as it is. \<open>attached_session\<close>
  is the session right after \<open>/i\<close> on a fresh start on a TTY: the manager of
  \<open>claude\<close> (reference 0) has been spawned and is attached, the listener is registered.
\<close>

definition claude_adapter :: adapter where
  "claude_adapter =
     \<lparr>name = ''claude'', displayName = ''Claude Code'', color = ''brightCyan'',
      cleanResponse = (\<lambda>raw. raw)\<rparr>"

definition gemini_adapter :: adapter where
  "gemini_adapter =
     \<lparr>name = ''gemini'', displayName = ''Gemini CLI'', color = ''brightMagenta'',
      cleanResponse = (\<lambda>raw. raw)\<rparr>"

definition two_tools :: "string \<rightharpoonup> adapter" where
  "two_tools = [''claude'' \<mapsto> claude_adapter, ''gemini'' \<mapsto> gemini_adapter]"

definition fresh_session :: sdk where
  "fresh_session = (new_session two_tools ''claude'' True False)\<lparr>rl := True\<rparr>"

definition attached_session :: sdk where
  "attached_session =
     \<lparr>activeTool = ''claude'', conversationHistory = [], registry = two_tools,
      ptyManagers = [''claude'' \<mapsto> 0],
      heap = (\<lambda>r. new_manager blank_adapter)
               (0 := attach (spawn False (new_manager claude_adapter))),
      nextRef = 1, spawnLog = [0], requestInProgress = False, rl = False, isTTY = True,
      rawMode = True,
      stdout = [Log EnteringInteractive, Raw [0x0A], Log FirstLaunch, Log DetachHint],
      stdinListener = True, resizeListener = True,
      debugKeys = False, sessManager = 0, detached = False, lastEscapeTime = 0,
      cleanedUp = False, resolved = False\<rparr>"

section \<open>Replaying the buffer on reattachment\<close>





section \<open>Sequences of input chunks\<close>

text \<open>
  A chunk the listener returns on without doing anything (apart from the debug line): its
  text is a focus report, or nothing is left of it after the filters. A focus report alone
  is emptied by the filters too, so the second test covers both returns.
\<close>

definition ignored :: "byte list \<Rightarrow> bool" where
  "ignored data = (strip_responses (strip_focus (toString data)) = [])"

text \<open>
  The chunks of one interactive session in the order they arrive, each with the value of
  \<open>Date.now()\<close> when it is handled. \<open>detached\<close> and \<open>lastEscapeTime\<close> are variables
  of the session that only the listener and \<open>performDetach\<close> write, and \<open>cleanup\<close>
  removes the listener, so no chunk is handled after a detach.
\<close>

fun feed :: "(int \<times> byte list) list \<Rightarrow> sdk \<Rightarrow> sdk" where
  "feed [] s = s"
| "feed ((now, data) # cs) s = (if stdinListener s then feed cs (onStdinData now data s) else s)"

text \<open>
  What a chunk does to the session of manager \<open>r\<close>: it triggers detach (the session is
  detached, the manager no longer attached, nothing written to any subprocess), or the
  escape is written to the subprocess and the session goes on. \<open>listening\<close> is a session
  that still handles chunks.
\<close>

definition detach_triggered :: "nat \<Rightarrow> sdk \<Rightarrow> sdk \<Rightarrow> bool" where
  "detach_triggered r s s' =
     (detached s' \<and> \<not> attached (heap s' r)
      \<and> (\<forall>r'. ptyInput (heap s' r') = ptyInput (heap s r')))"

definition escape_forwarded :: "nat \<Rightarrow> sdk \<Rightarrow> sdk \<Rightarrow> bool" where
  "escape_forwarded r s s' =
     (\<not> detached s' \<and> heap s' = (heap s)(r := manager_write [0x1B] (heap s r)))"

definition listening :: "nat \<Rightarrow> sdk \<Rightarrow> bool" where
  "listening r s = (\<not> detached s \<and> \<not> cleanedUp s \<and> stdinListener s \<and> sessManager s = r)"

(* PROPERTIES *)

section \<open>Raw input decoding and filtering\<close>

lemma utf8_ascii:
  "b < 0x80 \<Longrightarrow> 0x80 \<le> lo \<Longrightarrow> b \<in> set bs \<Longrightarrow> b \<in> set (utf8_decode n cp lo hi bs)"
proof (induction n cp lo hi bs rule: utf8_decode.induct)
  case (1 needed cp lo hi)
  then show ?case by simp
next
  case (2 needed cp lo hi c cs)
  show ?case
  proof (cases "b = c")
    case True
    with 2 show ?thesis by auto
  next
    case False
    with 2 show ?thesis by auto
  qed
qed

lemma toString_ascii:
  assumes "b < 0x80" and "b \<in> set data"
  shows "unat b \<in> set (toString data)"
proof -
  from assms(1) have "unat b < 0x80" by (simp add: word_less_nat_alt)
  moreover from assms(2) have "unat b \<in> set (map unat data)" by simp
  ultimately show ?thesis unfolding toString_def by (intro utf8_ascii) simp_all
qed

lemma remove_matches_keeps:
  "avoids m c \<Longrightarrow> c \<in> set s \<Longrightarrow> c \<in> set (remove_matches m s)"
proof (induction m s rule: remove_matches.induct)
  case (1 m)
  then show ?case by simp
next
  case (2 m x xs)
  show ?case
  proof (cases "m (x # xs) = 0")
    case True
    with 2 show ?thesis by auto
  next
    case False
    from 2(3) have "c \<notin> set (take (m (x # xs)) (x # xs))" by (simp add: avoids_def)
    moreover have "set (x # xs) = set (take (m (x # xs)) (x # xs)) \<union> set (drop (m (x # xs)) (x # xs))"
      by (metis append_take_drop_id set_append)
    ultimately have "c \<in> set (drop (m (x # xs)) (x # xs))" using 2(4) by blast
    with 2 False show ?thesis by simp
  qed
qed

lemma match_params_shape:
  assumes "match_params finals u \<noteq> 0"
  shows "\<exists>ds f r. u = ds @ f # r \<and> (\<forall>d\<in>set ds. is_param d) \<and> f \<in> set finals
           \<and> \<not> is_param f \<and> match_params finals u = length ds + 1"
proof -
  define ds where "ds = takeWhile is_param u"
  from assms obtain f r where d: "dropWhile is_param u = f # r" and f: "f \<in> set finals"
    by (auto simp: match_params_def split: if_splits list.splits)
  have n: "match_params finals u = length ds + 1"
    using d f by (simp add: match_params_def ds_def)
  have nf: "\<not> is_param f" using d by (metis hd_dropWhile list.sel(1) list.distinct(1))
  have "u = ds @ f # r" unfolding ds_def using d by (metis takeWhile_dropWhile_id)
  moreover have "\<forall>d\<in>set ds. is_param d" unfolding ds_def by (auto dest: set_takeWhileD)
  ultimately show ?thesis using f nf n by blast
qed

lemma match_params_run:
  assumes "\<forall>d\<in>set ds. is_param d" "\<not> is_param f"
  shows "match_params finals (ds @ f # x) = (if f \<in> set finals then length ds + 1 else 0)"
proof -
  have "dropWhile is_param (ds @ f # x) = f # x" "takeWhile is_param (ds @ f # x) = ds"
    using assms by (simp_all add: dropWhile_append2 takeWhile_append2)
  then show ?thesis by (simp add: match_params_def)
qed

lemma match_csi_shape:
  assumes "match_csi pre finals s \<noteq> 0"
  shows "\<exists>ds f r. s = pre @ ds @ f # r \<and> (\<forall>d\<in>set ds. is_param d)
           \<and> f \<in> set finals \<and> \<not> is_param f
           \<and> match_csi pre finals s = length pre + length ds + 1"
proof -
  from assms have p: "take (length pre) s = pre"
    and q: "match_params finals (drop (length pre) s) \<noteq> 0"
    and n: "match_csi pre finals s = length pre + match_params finals (drop (length pre) s)"
    by (auto simp: match_csi_def split: if_splits)
  from match_params_shape[OF q] obtain ds f r where
    u: "drop (length pre) s = ds @ f # r" and ds: "\<forall>d\<in>set ds. is_param d"
    and f: "f \<in> set finals" "\<not> is_param f"
    and k: "match_params finals (drop (length pre) s) = length ds + 1" by blast
  have "s = pre @ drop (length pre) s" using p by (metis append_take_drop_id)
  with u have "s = pre @ ds @ f # r" by simp
  with ds f n k show ?thesis by auto
qed

lemma avoids_literal: "c \<notin> set sep \<Longrightarrow> avoids (match_literal sep) c"
  by (auto simp: avoids_def match_literal_def)

lemma avoids_csi:
  assumes "c \<notin> set pre" "\<not> is_param c" "c \<notin> set finals"
  shows "avoids (match_csi pre finals) c"
  unfolding avoids_def
proof
  fix s
  show "c \<notin> set (take (match_csi pre finals s) s)"
  proof (cases "match_csi pre finals s = 0")
    case True
    then show ?thesis by simp
  next
    case False
    from match_csi_shape[OF False] obtain ds f r where
      s: "s = pre @ ds @ f # r" and ds: "\<forall>d\<in>set ds. is_param d" and f: "f \<in> set finals"
      and n: "match_csi pre finals s = length pre + length ds + 1" by blast
    have "take (length pre + length ds + 1) (pre @ ds @ f # r) = pre @ ds @ [f]" by simp
    with s n have "take (match_csi pre finals s) s = pre @ ds @ [f]" by simp
    with assms ds f show ?thesis by auto
  qed
qed

lemma strip_keeps_control:
  assumes "control_char c" "c \<in> set str"
  shows "c \<in> set (strip_responses (strip_focus str))"
proof -
  have a1: "avoids (match_literal FOCUS_IN_SEQ) c" "avoids (match_literal FOCUS_OUT_SEQ) c"
    using assms(1)
    by (auto intro!: avoids_literal simp: control_char_def FOCUS_IN_SEQ_def FOCUS_OUT_SEQ_def)
  have a2: "avoids match_da_question c" "avoids match_da_greater c" "avoids match_csi_u c"
    using assms(1) unfolding match_da_question_def match_da_greater_def match_csi_u_def
    by (auto intro!: avoids_csi simp: control_char_def is_param_def)
  show ?thesis
    unfolding strip_responses_def strip_focus_def split_join_def
    using a1 a2 assms(2) by (intro remove_matches_keeps)
qed

lemma detach_key_char:
  assumes "is_detach_key b" "b \<in> set data"
  shows "control_char (unat b) \<and> unat b \<in> set (toString data)"
proof -
  from assms(1) have "b < 0x80" and "control_char (unat b)"
    by (auto simp: is_detach_key_def control_char_def CTRL_BRACKET_def CTRL_BACKSLASH_def
        CTRL_CARET_def CTRL_UNDERSCORE_def)
  then show ?thesis using toString_ascii assms(2) by blast
qed

section \<open>Detaching\<close>

lemma performDetach_effect:
  assumes "\<not> detached s" "\<not> cleanedUp s"
  shows "detached (performDetach s)"
    and "heap (performDetach s) = (heap s)(sessManager s := detach (heap s (sessManager s)))"
    and "rawMode (performDetach s) = (if isTTY s then False else rawMode s)"
    and "sessManager (performDetach s) = sessManager s"
    and "resolved (performDetach s)"
    and "\<not> stdinListener (performDetach s)"
  using assms
  by (simp_all add: performDetach_def Let_def session_cleanup_def update_manager_def emit_def
      push_history_def split: option.splits)

lemma debug_logged_fields:
  "detached (debug_logged data s) = detached s"
  "cleanedUp (debug_logged data s) = cleanedUp s"
  "heap (debug_logged data s) = heap s"
  "sessManager (debug_logged data s) = sessManager s"
  "isTTY (debug_logged data s) = isTTY s"
  "rawMode (debug_logged data s) = rawMode s"
  "conversationHistory (debug_logged data s) = conversationHistory s"
  "registry (debug_logged data s) = registry s"
  "activeTool (debug_logged data s) = activeTool s"
  "lastEscapeTime (debug_logged data s) = lastEscapeTime s"
  "ptyManagers (debug_logged data s) = ptyManagers s"
  by (simp_all add: debug_logged_def emit_def)

lemma onStdinData_detach_key:
  assumes "has_detach_key data"
  shows "onStdinData now data s = performDetach (debug_logged data s)"
proof -
  from assms obtain b where b: "is_detach_key b" "b \<in> set data"
    by (auto simp: has_detach_key_def list_ex_iff)
  then have c: "control_char (unat b)" "unat b \<in> set (toString data)"
    using detach_key_char by blast+
  from c have "toString data \<noteq> FOCUS_IN_SEQ" "toString data \<noteq> FOCUS_OUT_SEQ"
    by (auto simp: control_char_def FOCUS_IN_SEQ_def FOCUS_OUT_SEQ_def)
  moreover from c have "strip_responses (strip_focus (toString data)) \<noteq> []"
    using strip_keeps_control by fastforce
  ultimately show ?thesis using assms
    by (simp add: onStdinData_def Let_def)
qed

text \<open>
  C1. In an interactive session that has not detached, a chunk holding one of the bytes
  0x1D, 0x1C, 0x1E, 0x1F anywhere detaches: the session is marked detached, its manager is
  no longer attached and has left the state ATTACHED, raw mode is switched off on a TTY (it
  was never switched on otherwise), and nothing is written to the input of any subprocess.
\<close>

theorem detach_key_detaches:
  assumes "\<not> detached s" and "\<not> cleanedUp s"
    and "\<exists>b\<in>set data. b = 0x1D \<or> b = 0x1C \<or> b = 0x1E \<or> b = 0x1F"
  shows "detached (onStdinData now data s)
     \<and> \<not> attached (heap (onStdinData now data s) (sessManager s))
     \<and> state (heap (onStdinData now data s) (sessManager s)) \<noteq> ATTACHED
     \<and> rawMode (onStdinData now data s) = (if isTTY s then False else rawMode s)
     \<and> (\<forall>r. ptyInput (heap (onStdinData now data s) r) = ptyInput (heap s r))"
proof -
  from assms(3) have k: "has_detach_key data"
    by (auto simp: has_detach_key_def list_ex_iff is_detach_key_def CTRL_BRACKET_def
        CTRL_BACKSLASH_def CTRL_CARET_def CTRL_UNDERSCORE_def)
  let ?s = "debug_logged data s"
  have d: "\<not> detached ?s" "\<not> cleanedUp ?s"
    using assms(1,2) by (simp_all add: debug_logged_fields)
  note e = performDetach_effect[OF d]
  show ?thesis
    unfolding onStdinData_detach_key[OF k]
    using e(1,2,3) by (simp add: detach_def debug_logged_fields)
qed

theorem detach_key_detaches_witness:
  "detached (onStdinData 1000 [0x61, 0x1D, 0x62] attached_session)
     \<and> \<not> attached (heap (onStdinData 1000 [0x61, 0x1D, 0x62] attached_session) 0)
     \<and> state (heap (onStdinData 1000 [0x61, 0x1D, 0x62] attached_session) 0) = DETACHED
     \<and> \<not> rawMode (onStdinData 1000 [0x61, 0x1D, 0x62] attached_session)
     \<and> ptyInput (heap (onStdinData 1000 [0x61, 0x1D, 0x62] attached_session) 0) = []"
proof -
  have h: "\<not> detached attached_session" "\<not> cleanedUp attached_session"
    "\<exists>b\<in>set [0x61, 0x1D, 0x62 :: byte]. b = 0x1D \<or> b = 0x1C \<or> b = 0x1E \<or> b = 0x1F"
    by (simp_all add: attached_session_def)
  have st: "state (heap (onStdinData 1000 [0x61, 0x1D, 0x62] attached_session) 0) = DETACHED"
    unfolding onStdinData_detach_key[of "[0x61, 0x1D, 0x62]", unfolded has_detach_key_def is_detach_key_def CTRL_BRACKET_def, simplified]
    by (simp add: performDetach_def Let_def session_cleanup_def update_manager_def emit_def
        debug_logged_def attached_session_def detach_def attach_def spawn_def new_manager_def)
  show ?thesis
    using detach_key_detaches[OF h, of 1000] st
    by (simp add: attached_session_def attach_def spawn_def new_manager_def)
qed

text \<open>
  C2. The chunk ESC [ 9 3 ; 5 u, the CSI u encoding of Ctrl+], is deleted by the filter for
  CSI u sequences before the detach sequences are looked for: the chunk is left empty and
  the listener returns with the session as it was (apart from the debug line), still
  attached.
\<close>

theorem csi_u_detach_chunk_is_dropped:
  "onStdinData now [0x1B, 0x5B, 0x39, 0x33, 0x3B, 0x35, 0x75] attached_session
     = attached_session"
  by (simp add: onStdinData_def Let_def toString_def strip_responses_def strip_focus_def
      split_join_def match_literal_def FOCUS_IN_SEQ_def FOCUS_OUT_SEQ_def
      match_da_question_def match_da_greater_def match_csi_u_def match_csi_def
      match_params_def is_param_def debug_logged_def attached_session_def)

section \<open>What the filters delete\<close>

lemma tagged_sim: "map snd (remove_matches_tagged m xs) = remove_matches m (map snd xs)"
proof (induction m xs rule: remove_matches_tagged.induct)
  case (1 m)
  then show ?case by simp
next
  case (2 m x xs)
  define n where "n = m (map snd (x # xs))"
  have d: "map snd (drop n (x # xs)) = drop n (snd x # map snd xs)"
    by (simp add: drop_map [symmetric] del: drop_map)
  show ?case
  proof (cases "n = 0")
    case True
    with 2 show ?thesis by (simp add: n_def)
  next
    case False
    with 2(2) have "map snd (remove_matches_tagged m (drop n (x # xs)))
        = remove_matches m (map snd (drop n (x # xs)))" by (simp add: n_def)
    with False d show ?thesis using n_def by simp
  qed
qed

lemma tagged_subset: "set (remove_matches_tagged m xs) \<subseteq> set xs"
proof (induction m xs rule: remove_matches_tagged.induct)
  case (1 m)
  then show ?case by simp
next
  case (2 m x xs)
  show ?case
  proof (cases "m (map snd (x # xs)) = 0")
    case True
    with 2 show ?thesis by auto
  next
    case False
    with 2 have "set (remove_matches_tagged m (x # xs)) \<subseteq> set (drop (m (map snd (x # xs))) (x # xs))"
      by simp
    also have "\<dots> \<subseteq> set (x # xs)" by (rule set_drop_subset)
    finally show ?thesis .
  qed
qed

lemma tagged_split:
  assumes "esc_led m" "snd e = ESC"
  shows "remove_matches_tagged m (xs @ e # ys)
           = remove_matches_tagged m xs @ remove_matches_tagged m (e # ys)"
  using assms
proof (induction m xs rule: remove_matches_tagged.induct)
  case (1 m)
  then show ?case by simp
next
  case (2 m x xs)
  define n where "n = m (map snd (x # xs))"
  have "map snd ((x # xs) @ e # ys) = map snd (x # xs) @ ESC # map snd ys"
    using 2(4) by simp
  moreover have "m (map snd (x # xs) @ ESC # map snd ys) = m (map snd (x # xs))"
    using 2(3) unfolding esc_led_def by blast
  ultimately have loc: "m (map snd (x # xs @ e # ys)) = n" by (simp add: n_def)
  show ?case
  proof (cases "n = 0")
    case True
    with 2 loc show ?thesis by (simp add: n_def)
  next
    case False
    have "n \<le> length (x # xs)" using 2(3) unfolding esc_led_def n_def
      by (metis length_map)
    then have "drop n ((x # xs) @ e # ys) = drop n (x # xs) @ e # ys"
      by (simp only: drop_append) simp
    then have dr: "drop n (x # xs @ e # ys) = drop n (x # xs) @ e # ys" by simp
    have "remove_matches_tagged m (drop n (x # xs) @ e # ys)
        = remove_matches_tagged m (drop n (x # xs)) @ remove_matches_tagged m (e # ys)"
      using 2(2)[OF _ 2(3,4)] False by (simp add: n_def)
    with False loc dr show ?thesis using n_def by simp
  qed
qed

lemma tagged_keep_run:
  assumes "\<forall>i<length Q. m (map snd (drop i Q) @ map snd R) = 0"
  shows "remove_matches_tagged m (Q @ R) = Q @ remove_matches_tagged m R"
  using assms
proof (induction Q)
  case Nil
  then show ?case by simp
next
  case (Cons a Q)
  from Cons.prems have "m (map snd (drop 0 (a # Q)) @ map snd R) = 0" by blast
  then have h: "m (map snd ((a # Q) @ R)) = 0" by simp
  have "\<forall>i<length Q. m (map snd (drop i Q) @ map snd R) = 0"
  proof (intro allI impI)
    fix i assume "i < length Q"
    then have "Suc i < length (a # Q)" by simp
    with Cons.prems have "m (map snd (drop (Suc i) (a # Q)) @ map snd R) = 0" by blast
    then show "m (map snd (drop i Q) @ map snd R) = 0" by simp
  qed
  with Cons.IH have "remove_matches_tagged m (Q @ R) = Q @ remove_matches_tagged m R" by blast
  with h show ?case by simp
qed

lemma pass_skip:
  assumes "esc_led m" "skips m (map snd Q)" "seq_like (map snd Q)"
  shows "remove_matches_tagged m (P @ Q @ R)
           = remove_matches_tagged m P @ Q @ remove_matches_tagged m R"
proof -
  from assms(3) obtain e Q' where Q: "Q = e # Q'" and e: "snd e = ESC"
    and ne: "ESC \<notin> set (map snd Q')"
    by (cases Q) (auto simp: seq_like_def)
  have "\<forall>i<length Q. m (map snd (drop i Q) @ map snd R) = 0"
  proof (intro allI impI)
    fix i assume i: "i < length Q"
    show "m (map snd (drop i Q) @ map snd R) = 0"
    proof (cases i)
      case 0
      with assms(2) show ?thesis by (simp add: skips_def)
    next
      case (Suc j)
      with i Q have j: "j < length Q'" by simp
      then have "drop j Q' \<noteq> []" by simp
      then obtain y ys where d: "drop j Q' = y # ys" by (cases "drop j Q'") auto
      then have "y \<in> set Q'" by (metis in_set_dropD list.set_intros(1))
      then have "snd y \<in> set (map snd Q')" by simp
      with ne have "snd y \<noteq> ESC" by metis
      then have "hd (map snd (drop i Q) @ map snd R) \<noteq> ESC" using Suc Q d by simp
      moreover have "map snd (drop i Q) @ map snd R \<noteq> []" using Suc Q d by simp
      ultimately show ?thesis using assms(1) unfolding esc_led_def by blast
    qed
  qed
  then have "remove_matches_tagged m (Q @ R) = Q @ remove_matches_tagged m R"
    by (rule tagged_keep_run)
  moreover have "remove_matches_tagged m (P @ e # (Q' @ R))
      = remove_matches_tagged m P @ remove_matches_tagged m (e # (Q' @ R))"
    using assms(1) e by (rule tagged_split)
  ultimately show ?thesis using Q by simp
qed

lemma pass_take:
  assumes "esc_led m" "takes m (map snd Q)" "seq_like (map snd Q)"
  shows "remove_matches_tagged m (P @ Q @ R)
           = remove_matches_tagged m P @ remove_matches_tagged m R"
proof -
  from assms(3) obtain e Q' where Q: "Q = e # Q'" and e: "snd e = ESC"
    by (cases Q) (auto simp: seq_like_def)
  have "m (map snd (Q @ R)) = length Q" using assms(2) by (simp add: takes_def)
  then have "remove_matches_tagged m (e # (Q' @ R)) = remove_matches_tagged m R"
    using Q by simp
  moreover have "remove_matches_tagged m (P @ e # (Q' @ R))
      = remove_matches_tagged m P @ remove_matches_tagged m (e # (Q' @ R))"
    using assms(1) e by (rule tagged_split)
  ultimately show ?thesis using Q by simp
qed

lemma fold_tagged_subset: "set (fold remove_matches_tagged ms T) \<subseteq> set T"
proof (induction ms arbitrary: T)
  case Nil
  then show ?case by simp
next
  case (Cons m ms)
  have "set (fold remove_matches_tagged ms (remove_matches_tagged m T))
      \<subseteq> set (remove_matches_tagged m T)" by (rule Cons.IH)
  with tagged_subset[of m T] show ?case by auto
qed

lemma fold_tagged_removes:
  assumes "\<forall>m\<in>set ms. esc_led m \<and> (takes m (map snd Q) \<or> skips m (map snd Q))"
    and "\<exists>m\<in>set ms. takes m (map snd Q)"
    and "seq_like (map snd Q)"
  shows "set (fold remove_matches_tagged ms (P @ Q @ R)) \<subseteq> set P \<union> set R"
  using assms
proof (induction ms arbitrary: P R)
  case Nil
  then show ?case by simp
next
  case (Cons m ms)
  from Cons.prems(1) have led: "esc_led m" by simp
  show ?case
  proof (cases "takes m (map snd Q)")
    case True
    have "remove_matches_tagged m (P @ Q @ R)
        = remove_matches_tagged m P @ remove_matches_tagged m R"
      using led True Cons.prems(3) by (rule pass_take)
    then have "set (fold remove_matches_tagged (m # ms) (P @ Q @ R))
        \<subseteq> set (remove_matches_tagged m P @ remove_matches_tagged m R)"
      using fold_tagged_subset[of ms "remove_matches_tagged m P @ remove_matches_tagged m R"]
      by simp
    also have "\<dots> \<subseteq> set P \<union> set R" using tagged_subset[of m P] tagged_subset[of m R] by auto
    finally show ?thesis .
  next
    case False
    with Cons.prems(1) have sk: "skips m (map snd Q)" by simp
    from False Cons.prems(2) have ex: "\<exists>m\<in>set ms. takes m (map snd Q)" by auto
    have eq: "remove_matches_tagged m (P @ Q @ R)
        = remove_matches_tagged m P @ Q @ remove_matches_tagged m R"
      using led sk Cons.prems(3) by (rule pass_skip)
    have "set (fold remove_matches_tagged ms
              (remove_matches_tagged m P @ Q @ remove_matches_tagged m R))
        \<subseteq> set (remove_matches_tagged m P) \<union> set (remove_matches_tagged m R)"
      using Cons.prems(1) ex Cons.prems(3) by (intro Cons.IH) simp_all
    with eq show ?thesis using tagged_subset[of m P] tagged_subset[of m R] by auto
  qed
qed

lemma esc_led_literal:
  assumes "sep \<noteq> []" "hd sep = ESC" "ESC \<notin> set (tl sep)"
  shows "esc_led (match_literal sep)"
  unfolding esc_led_def
proof (intro conjI allI impI)
  fix s show "match_literal sep s \<le> length s"
    by (auto simp: match_literal_def dest: arg_cong[where f=length])
next
  fix s assume "match_literal sep s \<noteq> 0"
  then have "take (length sep) s = sep" by (auto simp: match_literal_def split: if_splits)
  with assms show "s \<noteq> []" "hd s = ESC" by (cases s; cases sep; auto)+
next
  fix s t :: jsstring assume ne: "s \<noteq> []"
  show "match_literal sep (s @ ESC # t) = match_literal sep s"
  proof (cases "length sep \<le> length s")
    case True
    then show ?thesis by (simp add: match_literal_def)
  next
    case False
    then have l: "length s < length sep" by simp
    have a: "take (length sep) s \<noteq> sep" using l by (auto dest: arg_cong[where f=length])
    have "take (length sep) (s @ ESC # t) ! (length s) = ESC"
      using l by (simp add: nth_append)
    moreover have "sep ! (length s) \<noteq> ESC"
    proof -
      from ne l obtain k where k: "length s = Suc k" "k < length (tl sep)"
        by (cases s) auto
      then have "sep ! (length s) = tl sep ! k" using assms(1) by (cases sep) auto
      with k assms(3) show ?thesis by (metis nth_mem)
    qed
    ultimately have "take (length sep) (s @ ESC # t) \<noteq> sep" by metis
    with a show ?thesis by (simp add: match_literal_def)
  qed
qed

lemma esc_led_csi:
  assumes "pre \<noteq> []" "hd pre = ESC" "ESC \<notin> set (tl pre)" "ESC \<notin> set finals"
  shows "esc_led (match_csi pre finals)"
  unfolding esc_led_def
proof (intro conjI allI impI)
  fix s show "match_csi pre finals s \<le> length s"
  proof (cases "match_csi pre finals s = 0")
    case True then show ?thesis by simp
  next
    case False
    from match_csi_shape[OF False] show ?thesis by auto
  qed
next
  fix s assume "match_csi pre finals s \<noteq> 0"
  then have "take (length pre) s = pre" by (auto simp: match_csi_def split: if_splits)
  with assms show "s \<noteq> []" "hd s = ESC" by (cases s; cases pre; auto)+
next
  fix s t :: jsstring assume ne: "s \<noteq> []"
  have np: "\<not> is_param ESC" by (simp add: is_param_def ESC_def)
  show "match_csi pre finals (s @ ESC # t) = match_csi pre finals s"
  proof (cases "length pre \<le> length s")
    case True
    define r where "r = drop (length pre) s"
    have d: "drop (length pre) (s @ ESC # t) = r @ ESC # t"
      "take (length pre) (s @ ESC # t) = take (length pre) s" using True by (simp_all add: r_def)
    have "match_params finals (r @ ESC # t) = match_params finals r"
    proof (cases "\<forall>x\<in>set r. is_param x")
      case True
      then have e1: "dropWhile is_param r = []" by simp
      from True np have e2: "dropWhile is_param (r @ ESC # t) = ESC # t"
        by (simp add: dropWhile_append2)
      show ?thesis unfolding match_params_def e1 e2 using assms(4) by simp
    next
      case False
      then have "dropWhile is_param (r @ ESC # t) = dropWhile is_param r @ ESC # t"
        "takeWhile is_param (r @ ESC # t) = takeWhile is_param r"
        "dropWhile is_param r \<noteq> []"
        by (auto simp: dropWhile_append1 takeWhile_append1 dropWhile_eq_Nil_conv)
      then show ?thesis
        by (cases "dropWhile is_param r") (simp_all add: match_params_def)
    qed
    with d show ?thesis by (simp add: match_csi_def r_def)
  next
    case False
    then have l: "length s < length pre" by simp
    have a: "take (length pre) s \<noteq> pre" using l by (auto dest: arg_cong[where f=length])
    have "take (length pre) (s @ ESC # t) ! (length s) = ESC"
      using l by (simp add: nth_append)
    moreover have "pre ! (length s) \<noteq> ESC"
    proof -
      from ne l obtain k where k: "length s = Suc k" "k < length (tl pre)"
        by (cases s) auto
      then have "pre ! (length s) = tl pre ! k" using assms(1) by (cases pre) auto
      with k assms(3) show ?thesis by (metis nth_mem)
    qed
    ultimately have "take (length pre) (s @ ESC # t) \<noteq> pre" by metis
    with a show ?thesis by (simp add: match_csi_def)
  qed
qed

lemma filter_tagged_sim:
  "map snd (filter_tagged T) = strip_responses (strip_focus (map snd T))"
  by (simp add: filter_tagged_def FILTERS_def strip_responses_def strip_focus_def
      split_join_def tagged_sim)

lemma esc_led_FILTERS: "\<forall>m\<in>set FILTERS. esc_led m"
  by (auto simp: FILTERS_def match_da_question_def match_da_greater_def match_csi_u_def
      FOCUS_IN_SEQ_def FOCUS_OUT_SEQ_def ESC_def intro!: esc_led_literal esc_led_csi)

lemma takes_csi:
  assumes "\<forall>d\<in>set ds. is_param d" "f \<in> set finals" "\<not> is_param f"
  shows "takes (match_csi pre finals) (pre @ ds @ [f])"
  unfolding takes_def
proof
  fix x
  have "match_params finals (ds @ f # x) = length ds + 1"
    using match_params_run[OF assms(1,3)] assms(2) by simp
  then show "match_csi pre finals ((pre @ ds @ [f]) @ x) = length (pre @ ds @ [f])"
    by (simp add: match_csi_def)
qed

lemma skips_csi_third:
  assumes "length pre = 2" "c \<notin> set finals" "\<not> is_param c"
  shows "skips (match_csi pre finals) (pre @ c # u)"
  unfolding skips_def using assms by (simp add: match_csi_def match_params_def)

lemma skips_prefix:
  assumes "take (length pre) q \<noteq> pre" "length pre \<le> length q"
  shows "skips (match_csi pre finals) q" "skips (match_literal pre) q"
  unfolding skips_def using assms by (simp_all add: match_csi_def match_literal_def)

lemma sequence_kinds:
  assumes "report_or_response ps q"
  shows "seq_like q \<and> (\<forall>m\<in>set FILTERS. takes m q \<or> skips m q) \<and> (\<exists>m\<in>set FILTERS. takes m q)"
proof -
  have pt: "parameter_text ps \<Longrightarrow> \<forall>d\<in>set ps. is_param d"
    by (simp add: parameter_text_def is_param_def list_all_iff)
  consider (fi) "q = [0x1B, 0x5B, 0x49]" | (fo) "q = [0x1B, 0x5B, 0x4F]"
    | (q1) f where "parameter_text ps" "q = [0x1B, 0x5B, 0x3F] @ ps @ [f]"
        "f = 0x63 \<or> f = 0x75"
    | (q2) "parameter_text ps" "q = [0x1B, 0x5B, 0x3E] @ ps @ [0x63]"
    | (q3) "parameter_text ps" "q = [0x1B, 0x5B] @ ps @ [0x75]"
    using assms unfolding report_or_response_def by blast
  then show ?thesis
  proof cases
    case fi
    have "takes (match_literal FOCUS_IN_SEQ) q" "skips (match_literal FOCUS_OUT_SEQ) q"
      "skips match_da_question q" "skips match_da_greater q" "skips match_csi_u q"
      unfolding fi by (simp_all add: takes_def skips_def match_literal_def FOCUS_IN_SEQ_def
          FOCUS_OUT_SEQ_def match_da_question_def match_da_greater_def match_csi_u_def
          match_csi_def match_params_def is_param_def)
    moreover have "seq_like q" unfolding fi by (simp add: seq_like_def FOCUS_IN_SEQ_def ESC_def)
    ultimately show ?thesis by (simp add: FILTERS_def)
  next
    case fo
    have "skips (match_literal FOCUS_IN_SEQ) q" "takes (match_literal FOCUS_OUT_SEQ) q"
      "skips match_da_question q" "skips match_da_greater q" "skips match_csi_u q"
      unfolding fo by (simp_all add: takes_def skips_def match_literal_def FOCUS_IN_SEQ_def
          FOCUS_OUT_SEQ_def match_da_question_def match_da_greater_def match_csi_u_def
          match_csi_def match_params_def is_param_def)
    moreover have "seq_like q" unfolding fo by (simp add: seq_like_def FOCUS_OUT_SEQ_def ESC_def)
    ultimately show ?thesis by (simp add: FILTERS_def)
  next
    case q1
    define ds where "ds = ps"
    from q1 pt have q: "q = [0x1B, 0x5B, 0x3F] @ ds @ [f]" and p: "\<forall>d\<in>set ds. is_param d"
      "f \<in> set [0x75, 0x63]" "\<not> is_param f" by (auto simp: ds_def is_param_def)
    have "takes match_da_question q" unfolding q match_da_question_def
      using p by (rule takes_csi)
    moreover have "skips (match_literal FOCUS_IN_SEQ) q" "skips (match_literal FOCUS_OUT_SEQ) q"
      "skips match_da_greater q"
      unfolding q match_da_greater_def FOCUS_IN_SEQ_def FOCUS_OUT_SEQ_def
      by (rule skips_prefix; simp)+
    moreover have "skips match_csi_u q"
      using skips_csi_third[of "[0x1B, 0x5B]" "0x3F" "[0x75]" "ds @ [f]"]
      by (simp add: q match_csi_u_def is_param_def)
    moreover have "seq_like q" using p unfolding q
      by (auto simp: seq_like_def ESC_def is_param_def)
    ultimately show ?thesis by (simp add: FILTERS_def)
  next
    case q2
    define ds where "ds = ps"
    define f where "f = (0x63 :: nat)"
    from q2 pt have q: "q = [0x1B, 0x5B, 0x3E] @ ds @ [f]" and p: "\<forall>d\<in>set ds. is_param d"
      "f \<in> set [0x63]" "\<not> is_param f" by (auto simp: ds_def f_def is_param_def)
    have "takes match_da_greater q" unfolding q match_da_greater_def
      using p by (rule takes_csi)
    moreover have "skips (match_literal FOCUS_IN_SEQ) q" "skips (match_literal FOCUS_OUT_SEQ) q"
      "skips match_da_question q"
      unfolding q match_da_question_def FOCUS_IN_SEQ_def FOCUS_OUT_SEQ_def
      by (rule skips_prefix; simp)+
    moreover have "skips match_csi_u q"
      using skips_csi_third[of "[0x1B, 0x5B]" "0x3E" "[0x75]" "ds @ [f]"]
      by (simp add: q match_csi_u_def is_param_def)
    moreover have "seq_like q" using p unfolding q
      by (auto simp: seq_like_def ESC_def is_param_def)
    ultimately show ?thesis by (simp add: FILTERS_def)
  next
    case q3
    define ds where "ds = ps"
    define f where "f = (0x75 :: nat)"
    from q3 pt have q: "q = [0x1B, 0x5B] @ ds @ [f]" and p: "\<forall>d\<in>set ds. is_param d"
      "f \<in> set [0x75]" "\<not> is_param f" by (auto simp: ds_def f_def is_param_def)
    have "takes match_csi_u q" unfolding q match_csi_u_def
      using p by (rule takes_csi)
    moreover have "skips (match_literal FOCUS_IN_SEQ) q" "skips (match_literal FOCUS_OUT_SEQ) q"
      "skips match_da_question q" "skips match_da_greater q"
      unfolding q match_da_question_def match_da_greater_def FOCUS_IN_SEQ_def FOCUS_OUT_SEQ_def
      using p by (cases ds; auto simp: skips_def match_csi_def match_params_def match_literal_def is_param_def)+
    moreover have "seq_like q" using p unfolding q
      by (auto simp: seq_like_def ESC_def is_param_def)
    ultimately show ?thesis by (simp add: FILTERS_def)
  qed
qed

lemma filter_tagged_removes:
  assumes "report_or_response ps (map snd Q)"
  shows "set (filter_tagged (P @ Q @ R)) \<subseteq> set P \<union> set R"
  unfolding filter_tagged_def
  using sequence_kinds[OF assms] esc_led_FILTERS
  by (intro fold_tagged_removes) auto

lemma tagged_subseq: "subseq (remove_matches_tagged m xs) xs"
proof (induction m xs rule: remove_matches_tagged.induct)
  case (1 m)
  then show ?case by simp
next
  case (2 m x xs)
  show ?case
  proof (cases "m (map snd (x # xs)) = 0")
    case True
    with 2 show ?thesis by simp
  next
    case False
    define n where "n = m (map snd (x # xs))"
    from False 2(2) have "subseq (remove_matches_tagged m (drop n (x # xs))) (drop n (x # xs))"
      by (simp add: n_def)
    moreover have "subseq (drop n (x # xs)) (x # xs)"
      by (metis append_take_drop_id subseq_drop_many subseq_order.order_refl)
    ultimately have "subseq (remove_matches_tagged m (drop n (x # xs))) (x # xs)"
      by (rule subseq_order.order_trans)
    with False show ?thesis by (simp add: n_def)
  qed
qed

lemma filter_tagged_subseq: "subseq (filter_tagged T) T"
proof -
  have "subseq (fold remove_matches_tagged ms T) T" for ms
  proof (induction ms arbitrary: T)
    case Nil
    then show ?case by simp
  next
    case (Cons m ms)
    have "subseq (fold remove_matches_tagged ms (remove_matches_tagged m T))
            (remove_matches_tagged m T)" by (rule Cons.IH)
    then show ?case using tagged_subseq[of m T] by (auto intro: subseq_order.order_trans)
  qed
  then show ?thesis by (simp add: filter_tagged_def)
qed

lemma deleted_positions:
  fixes F :: "(nat \<times> nat) list \<Rightarrow> (nat \<times> nat) list"
  assumes rem: "\<And>P Q R. seq (map snd Q) \<Longrightarrow> set (F (P @ Q @ R)) \<subseteq> set P \<union> set R"
    and "seq (take n (drop i str))" "i \<le> j" "j < i + n"
  shows "j \<notin> fst ` set (F (enumerate 0 str))"
proof
  define T where "T = enumerate 0 str"
  define P where "P = take i T"
  define Q where "Q = take n (drop i T)"
  define R where "R = drop n (drop i T)"
  assume "j \<in> fst ` set (F (enumerate 0 str))"
  then obtain c where jc: "(j, c) \<in> set (F T)" by (auto simp: T_def)
  have "take n (drop i T) @ drop n (drop i T) = drop i T" by (rule append_take_drop_id)
  then have "take i T @ take n (drop i T) @ drop n (drop i T) = T" by simp
  then have T: "T = P @ Q @ R" by (simp only: P_def Q_def R_def)
  have "map snd Q = take n (drop i str)"
    unfolding Q_def T_def by (metis take_map drop_map map_snd_enumerate)
  with assms(2) have "seq (map snd Q)" by simp
  then have "set (F (P @ Q @ R)) \<subseteq> set P \<union> set R" by (rule rem)
  with jc T have "(j, c) \<in> set P \<or> (j, c) \<in> set R" by auto
  then show False
  proof
    assume "(j, c) \<in> set P"
    then obtain k where "k < length P" "P ! k = (j, c)" by (auto simp: in_set_conv_nth)
    then have "k < i" "k < length str" "T ! k = (j, c)" by (auto simp: P_def T_def)
    then have "j = k" by (simp add: T_def nth_enumerate_eq)
    with \<open>k < i\<close> assms(3) show False by simp
  next
    assume "(j, c) \<in> set R"
    then obtain k where k: "k < length R" "R ! k = (j, c)" by (auto simp: in_set_conv_nth)
    then have "i + n + k < length str" by (auto simp: R_def T_def)
    moreover from k have "T ! (i + n + k) = (j, c)" by (simp add: R_def add.commute add.left_commute)
    ultimately have "j = i + n + k" by (simp add: T_def nth_enumerate_eq)
    with assms(4) show False by simp
  qed
qed

lemma filter_tagged_positions:
  assumes "report_or_response ps (take n (drop i str))" "i \<le> j" "j < i + n"
  shows "j \<notin> fst ` set (filter_tagged (enumerate 0 str))"
  using filter_tagged_removes[of ps] assms by (rule deleted_positions)

lemma performDetach_heap:
  "heap (performDetach s)
     = (if detached s then heap s
        else (heap s)(sessManager s := detach (heap s (sessManager s))))"
  by (simp add: performDetach_def Let_def session_cleanup_def update_manager_def emit_def
      push_history_def split: option.splits)

lemma onStdinData_forwards:
  "ptyInput (heap (onStdinData now data s) r) = ptyInput (heap s r)
   \<or> ptyInput (heap (onStdinData now data s) r)
        = ptyInput (heap s r) @ [strip_responses (strip_focus (toString data))]"
  by (simp add: onStdinData_def Let_def performDetach_heap debug_logged_fields
      update_manager_def detach_def manager_write_def)

section \<open>How a chunk is classified\<close>

lemma strip_focus_seqs:
  "strip_responses (strip_focus FOCUS_IN_SEQ) = []"
  "strip_responses (strip_focus FOCUS_OUT_SEQ) = []"
  by (simp_all add: strip_responses_def strip_focus_def split_join_def match_literal_def
      FOCUS_IN_SEQ_def FOCUS_OUT_SEQ_def)

lemma double_escape_length: "has_double_escape data \<Longrightarrow> 2 \<le> length data"
  by (induction data rule: has_double_escape.induct) auto

lemma single_escape_text:
  "toString [ESCAPE] = [0x1B]" "strip_responses (strip_focus [0x1B]) = [0x1B]"
  "\<not> has_csi_u_detach [0x1B]" "\<not> has_detach_key [ESCAPE]"
  by (simp_all add: toString_def ESCAPE_def strip_responses_def strip_focus_def split_join_def
      match_literal_def FOCUS_IN_SEQ_def FOCUS_OUT_SEQ_def match_da_question_def
      match_da_greater_def match_csi_u_def match_csi_def has_csi_u_detach_def
      CSI_U_DETACH_SEQS_def has_detach_key_def is_detach_key_def CTRL_BRACKET_def
      CTRL_BACKSLASH_def CTRL_CARET_def CTRL_UNDERSCORE_def)

lemma onStdinData_single_escape:
  "onStdinData now [ESCAPE] s =
     (if now - lastEscapeTime s < 500 then performDetach (debug_logged [ESCAPE] s)
      else update_manager (sessManager s) (manager_write [0x1B])
             ((debug_logged [ESCAPE] s)\<lparr>lastEscapeTime := now\<rparr>))"
  by (simp add: onStdinData_def Let_def single_escape_text debug_logged_fields
      FOCUS_IN_SEQ_def FOCUS_OUT_SEQ_def)

lemma forwarded_escape_fields:
  "detached (update_manager r f (s\<lparr>lastEscapeTime := t\<rparr>)) = detached s"
  "cleanedUp (update_manager r f (s\<lparr>lastEscapeTime := t\<rparr>)) = cleanedUp s"
  "lastEscapeTime (update_manager r f (s\<lparr>lastEscapeTime := t\<rparr>)) = t"
  "heap (update_manager r f (s\<lparr>lastEscapeTime := t\<rparr>)) = (heap s)(r := f (heap s r))"
  "sessManager (update_manager r f (s\<lparr>lastEscapeTime := t\<rparr>)) = sessManager s"
  by (simp_all add: update_manager_def)

lemma detach_key_iff:
  "has_detach_key data \<longleftrightarrow> (\<exists>b\<in>set data. b = 0x1D \<or> b = 0x1C \<or> b = 0x1E \<or> b = 0x1F)"
  by (auto simp: has_detach_key_def list_ex_iff is_detach_key_def CTRL_BRACKET_def
      CTRL_BACKSLASH_def CTRL_CARET_def CTRL_UNDERSCORE_def)

lemma double_escape_iff:
  "has_double_escape data
     \<longleftrightarrow> (\<exists>i. Suc i < length data \<and> data ! i = 0x1B \<and> data ! Suc i = 0x1B)"
proof (induction data rule: has_double_escape.induct)
  case (1 x y ys)
  show ?case
  proof
    assume "has_double_escape (x # y # ys)"
    then consider "x = 0x1B \<and> y = 0x1B" | "has_double_escape (y # ys)"
      by (auto simp: ESCAPE_def)
    then show "\<exists>i. Suc i < length (x # y # ys) \<and> (x # y # ys) ! i = 0x1B
        \<and> (x # y # ys) ! Suc i = 0x1B"
    proof cases
      case 1
      then show ?thesis by (intro exI[of _ 0]) simp
    next
      case 2
      with 1 obtain i where "Suc i < length (y # ys)" "(y # ys) ! i = 0x1B"
        "(y # ys) ! Suc i = 0x1B" by blast
      then show ?thesis by (intro exI[of _ "Suc i"]) simp
    qed
  next
    assume "\<exists>i. Suc i < length (x # y # ys) \<and> (x # y # ys) ! i = 0x1B
        \<and> (x # y # ys) ! Suc i = 0x1B"
    then obtain i where i: "Suc i < length (x # y # ys)" "(x # y # ys) ! i = 0x1B"
      "(x # y # ys) ! Suc i = 0x1B" by blast
    show "has_double_escape (x # y # ys)"
    proof (cases i)
      case 0
      with i show ?thesis by (simp add: ESCAPE_def)
    next
      case (Suc j)
      with i have "Suc j < length (y # ys)" "(y # ys) ! j = 0x1B" "(y # ys) ! Suc j = 0x1B"
        by simp_all
      with 1 have "has_double_escape (y # ys)" by blast
      then show ?thesis by simp
    qed
  qed
qed simp_all

lemma single_escape_iff: "(length data = 1 \<and> data ! 0 = ESCAPE) \<longleftrightarrow> data = [0x1B]"
  by (cases data) (auto simp: ESCAPE_def)

lemma onStdinData_cases:
  "onStdinData now data s =
     (if strip_responses (strip_focus (toString data)) = [] then debug_logged data s
      else if has_csi_u_detach (strip_responses (strip_focus (toString data)))
              \<or> has_detach_key data \<or> has_double_escape data
              \<or> (data = [0x1B] \<and> now - lastEscapeTime s < 500)
           then performDetach (debug_logged data s)
           else update_manager (sessManager s)
                  (manager_write (strip_responses (strip_focus (toString data))))
                  ((debug_logged data s)\<lparr>lastEscapeTime := (if data = [0x1B] then now else 0)\<rparr>))"
proof (cases "strip_responses (strip_focus (toString data)) = []")
  case True
  then show ?thesis by (simp add: onStdinData_def Let_def)
next
  case False
  then have "toString data \<noteq> FOCUS_IN_SEQ" "toString data \<noteq> FOCUS_OUT_SEQ"
    using strip_focus_seqs by auto
  then show ?thesis
    using False double_escape_length[of data] single_escape_iff[of data]
    by (auto simp: onStdinData_def Let_def debug_logged_fields)
qed


lemma onStdinData_outcomes:
  obtains (dropped) "strip_responses (strip_focus (toString d)) = []"
      "onStdinData t d s = debug_logged d s"
    | (detaches) "strip_responses (strip_focus (toString d)) \<noteq> []"
      "onStdinData t d s = performDetach (debug_logged d s)"
    | (forwards) "strip_responses (strip_focus (toString d)) \<noteq> []"
      "onStdinData t d s
         = update_manager (sessManager s)
             (manager_write (strip_responses (strip_focus (toString d))))
             ((debug_logged d s)\<lparr>lastEscapeTime := (if d = [0x1B] then t else 0)\<rparr>)"
proof (cases "strip_responses (strip_focus (toString d)) = []")
  case True
  then show ?thesis using dropped by (simp add: onStdinData_cases)
next
  case False
  show ?thesis
  proof (cases "has_csi_u_detach (strip_responses (strip_focus (toString d)))
              \<or> has_detach_key d \<or> has_double_escape d
              \<or> (d = [0x1B] \<and> t - lastEscapeTime s < 500)")
    case True
    with False have "onStdinData t d s = performDetach (debug_logged d s)"
      by (simp only: onStdinData_cases if_True if_False)
    with False show ?thesis by (rule detaches)
  next
    case c: False
    with False have "onStdinData t d s
         = update_manager (sessManager s)
             (manager_write (strip_responses (strip_focus (toString d))))
             ((debug_logged d s)\<lparr>lastEscapeTime := (if d = [0x1B] then t else 0)\<rparr>)"
      by (simp only: onStdinData_cases if_True if_False)
    with False show ?thesis by (rule forwards)
  qed
qed

lemma includes_sublist: "(str = seq \<or> str_includes str seq) \<longleftrightarrow> sublist seq str"
proof -
  have t: "(take (length xs) ys = xs) = prefix xs ys" for xs ys :: jsstring
    by (metis append_eq_conv_conj prefix_def)
  have "str_includes str seq \<longleftrightarrow> sublist seq str"
    by (induction str) (simp_all add: sublist_Cons_right t)
  then show ?thesis by auto
qed

lemma csi_u_detach_iff:
  "has_csi_u_detach str \<longleftrightarrow> (\<exists>seq\<in>set CSI_U_DETACH_SEQS. sublist seq str)"
  by (simp add: has_csi_u_detach_def list_ex_iff includes_sublist)

text \<open>
  C3, as the code has it. Whatever a chunk makes \<open>onStdinData\<close> write to a subprocess is
  the decoded chunk after the focus and terminal-response filters, and nothing else is
  written. That text is the chunk's text with positions deleted, and every position that lies
  inside a focus report or a terminal response (ESC [ I, ESC [ O, ESC [ ? ... c,
  ESC [ ? ... u, ESC [ > ... c, ESC [ ... u, the dots being digits and semicolons) occurring
  in the chunk is among the deleted ones. A chunk that the filters leave empty changes
  nothing: no write, no detach. The deletion comes before the forwarding only: when the
  filtered text is not empty, the detach keys and the escapes are looked for in the raw bytes
  of the chunk, those of the deleted sequences included. The session detaches when a detach
  key is among the bytes, when two adjacent bytes are escapes, or when the chunk is the single
  escape byte less than 500 ms after \<open>lastEscapeTime\<close>; when none of these holds and the
  filtered text holds no CSI u detach sequence, the filtered text is written to the subprocess.
\<close>

theorem terminal_sequences_never_forwarded:
  assumes "\<not> detached s" and "\<not> cleanedUp s"
  shows "(\<forall>r. ptyInput (heap (onStdinData now data s) r) = ptyInput (heap s r)
        \<or> ptyInput (heap (onStdinData now data s) r)
             = ptyInput (heap s r) @ [strip_responses (strip_focus (toString data))])
   \<and> strip_responses (strip_focus (toString data))
        = map snd (filter_tagged (enumerate 0 (toString data)))
   \<and> subseq (filter_tagged (enumerate 0 (toString data))) (enumerate 0 (toString data))
   \<and> (\<forall>ps i n j. report_or_response ps (take n (drop i (toString data))) \<and> i \<le> j \<and> j < i + n
          \<longrightarrow> j \<notin> fst ` set (filter_tagged (enumerate 0 (toString data))))
   \<and> (strip_responses (strip_focus (toString data)) = []
          \<longrightarrow> onStdinData now data s = debug_logged data s)
   \<and> (strip_responses (strip_focus (toString data)) \<noteq> []
        \<and> ((\<exists>b\<in>set data. b = 0x1D \<or> b = 0x1C \<or> b = 0x1E \<or> b = 0x1F)
           \<or> (\<exists>i. Suc i < length data \<and> data ! i = 0x1B \<and> data ! Suc i = 0x1B)
           \<or> (data = [0x1B] \<and> now - lastEscapeTime s < 500))
          \<longrightarrow> detached (onStdinData now data s)
              \<and> (\<forall>r. ptyInput (heap (onStdinData now data s) r) = ptyInput (heap s r)))
   \<and> (strip_responses (strip_focus (toString data)) \<noteq> []
        \<and> \<not> (\<exists>b\<in>set data. b = 0x1D \<or> b = 0x1C \<or> b = 0x1E \<or> b = 0x1F)
        \<and> \<not> (\<exists>i. Suc i < length data \<and> data ! i = 0x1B \<and> data ! Suc i = 0x1B)
        \<and> \<not> (data = [0x1B] \<and> now - lastEscapeTime s < 500)
        \<and> (\<forall>seq\<in>set CSI_U_DETACH_SEQS.
              \<not> sublist seq (strip_responses (strip_focus (toString data))))
          \<longrightarrow> \<not> detached (onStdinData now data s)
              \<and> heap (onStdinData now data s)
                   = (heap s)(sessManager s :=
                        manager_write (strip_responses (strip_focus (toString data)))
                          (heap s (sessManager s))))"
proof -
  let ?F = "strip_responses (strip_focus (toString data))"
  let ?K = "\<exists>b\<in>set data. b = 0x1D \<or> b = 0x1C \<or> b = 0x1E \<or> b = 0x1F"
  let ?E = "\<exists>i. Suc i < length data \<and> data ! i = 0x1B \<and> data ! Suc i = 0x1B"
  let ?S = "data = [0x1B] \<and> now - lastEscapeTime s < 500"
  have d: "\<not> detached (debug_logged data s)" "\<not> cleanedUp (debug_logged data s)"
    using assms by (simp_all add: debug_logged_fields)
  have c1: "\<forall>r. ptyInput (heap (onStdinData now data s) r) = ptyInput (heap s r)
        \<or> ptyInput (heap (onStdinData now data s) r) = ptyInput (heap s r) @ [?F]"
    using onStdinData_forwards by blast
  have c2: "?F = map snd (filter_tagged (enumerate 0 (toString data)))"
    by (simp add: filter_tagged_sim)
  have c3: "subseq (filter_tagged (enumerate 0 (toString data))) (enumerate 0 (toString data))"
    by (rule filter_tagged_subseq)
  have c4: "\<forall>ps i n j. report_or_response ps (take n (drop i (toString data))) \<and> i \<le> j \<and> j < i + n
          \<longrightarrow> j \<notin> fst ` set (filter_tagged (enumerate 0 (toString data)))"
    using filter_tagged_positions by blast
  have c5: "?F = [] \<longrightarrow> onStdinData now data s = debug_logged data s"
    by (simp add: onStdinData_cases)
  have c6: "?F \<noteq> [] \<and> (?K \<or> ?E \<or> ?S)
          \<longrightarrow> detached (onStdinData now data s)
              \<and> (\<forall>r. ptyInput (heap (onStdinData now data s) r) = ptyInput (heap s r))"
  proof
    assume h: "?F \<noteq> [] \<and> (?K \<or> ?E \<or> ?S)"
    then have "has_csi_u_detach ?F \<or> has_detach_key data \<or> has_double_escape data \<or> ?S"
      by (simp add: detach_key_iff double_escape_iff)
    with h have "onStdinData now data s = performDetach (debug_logged data s)"
      by (simp only: onStdinData_cases if_True if_False)
    with performDetach_effect(1,2)[OF d]
    show "detached (onStdinData now data s)
              \<and> (\<forall>r. ptyInput (heap (onStdinData now data s) r) = ptyInput (heap s r))"
      by (simp add: debug_logged_fields detach_def)
  qed
  have c7: "?F \<noteq> [] \<and> \<not> ?K \<and> \<not> ?E \<and> \<not> ?S \<and> (\<forall>seq\<in>set CSI_U_DETACH_SEQS. \<not> sublist seq ?F)
          \<longrightarrow> \<not> detached (onStdinData now data s)
              \<and> heap (onStdinData now data s)
                   = (heap s)(sessManager s := manager_write ?F (heap s (sessManager s)))"
  proof
    assume h: "?F \<noteq> [] \<and> \<not> ?K \<and> \<not> ?E \<and> \<not> ?S
        \<and> (\<forall>seq\<in>set CSI_U_DETACH_SEQS. \<not> sublist seq ?F)"
    then have "\<not> (has_csi_u_detach ?F \<or> has_detach_key data \<or> has_double_escape data \<or> ?S)"
      by (simp add: detach_key_iff double_escape_iff csi_u_detach_iff)
    with h have "onStdinData now data s
        = update_manager (sessManager s) (manager_write ?F)
            ((debug_logged data s)\<lparr>lastEscapeTime := (if data = [0x1B] then now else 0)\<rparr>)"
      by (simp only: onStdinData_cases if_True if_False)
    then show "\<not> detached (onStdinData now data s)
              \<and> heap (onStdinData now data s)
                   = (heap s)(sessManager s := manager_write ?F (heap s (sessManager s)))"
      using assms(1) by (simp add: update_manager_def debug_logged_fields)
  qed
  from c1 c2 c3 c4 c5 c6 c7 show ?thesis by (intro conjI)
qed

text \<open>
  C3, where the claim fails. In the chunk ESC ESC [ I the focus report is deleted and the
  text left is the single escape; a chunk that is the single escape is written to the
  subprocess. But the chunk detaches: the two adjacent escapes are found in the raw bytes,
  the second of them the first byte of the deleted report.
\<close>

theorem escape_before_focus_report_detaches:
  "strip_responses (strip_focus (toString [0x1B, 0x1B, 0x5B, 0x49])) = [0x1B]
   \<and> detached (onStdinData 1000 [0x1B, 0x1B, 0x5B, 0x49] attached_session)
   \<and> \<not> detached (onStdinData 1000 [0x1B] attached_session)
   \<and> ptyInput (heap (onStdinData 1000 [0x1B] attached_session) 0) = [[0x1B]]"
proof -
  have f: "strip_responses (strip_focus (toString [0x1B, 0x1B, 0x5B, 0x49])) = [0x1B]"
    by (simp add: toString_def strip_responses_def strip_focus_def split_join_def
        match_literal_def FOCUS_IN_SEQ_def FOCUS_OUT_SEQ_def match_da_question_def
        match_da_greater_def match_csi_u_def match_csi_def)
  have d: "\<not> detached (debug_logged x attached_session)"
    "\<not> cleanedUp (debug_logged x attached_session)" for x
    by (simp_all add: debug_logged_def attached_session_def)
  have "has_double_escape [0x1B, 0x1B, 0x5B, 0x49]" by (simp add: ESCAPE_def)
  with f have "onStdinData 1000 [0x1B, 0x1B, 0x5B, 0x49] attached_session
      = performDetach (debug_logged [0x1B, 0x1B, 0x5B, 0x49] attached_session)"
    by (simp add: onStdinData_cases)
  with performDetach_effect(1)[OF d]
  have a: "detached (onStdinData 1000 [0x1B, 0x1B, 0x5B, 0x49] attached_session)" by simp
  have "onStdinData 1000 [0x1B] attached_session
      = update_manager 0 (manager_write [0x1B]) (attached_session\<lparr>lastEscapeTime := 1000\<rparr>)"
    using onStdinData_single_escape[of 1000 attached_session]
    by (simp add: ESCAPE_def debug_logged_def attached_session_def)
  then have b: "\<not> detached (onStdinData 1000 [0x1B] attached_session)"
    "ptyInput (heap (onStdinData 1000 [0x1B] attached_session) 0) = [[0x1B]]"
    by (simp_all add: update_manager_def manager_write_def attached_session_def attach_def
        spawn_def new_manager_def)
  from f a b show ?thesis by simp
qed

theorem terminal_sequences_never_forwarded_witness:
  "report_or_response [0x30] (take 5 (drop 1 (toString [0x61, 0x1B, 0x5B, 0x3E, 0x30, 0x63, 0x62])))
   \<and> (1::nat) \<le> 3 \<and> (3::nat) < 1 + 5
   \<and> 3 \<notin> fst ` set (filter_tagged
          (enumerate 0 (toString [0x61, 0x1B, 0x5B, 0x3E, 0x30, 0x63, 0x62])))
   \<and> strip_responses (strip_focus (toString [0x61, 0x1B, 0x5B, 0x3E, 0x30, 0x63, 0x62]))
        = [0x61, 0x62]
   \<and> \<not> detached (onStdinData 1000 [0x61, 0x1B, 0x5B, 0x3E, 0x30, 0x63, 0x62] attached_session)
   \<and> ptyInput (heap (onStdinData 1000 [0x61, 0x1B, 0x5B, 0x3E, 0x30, 0x63, 0x62]
          attached_session) 0) = [[0x61, 0x62]]
   \<and> strip_responses (strip_focus
          (toString [0x1B, 0x5B, 0x49, 0x1B, 0x5B, 0x3F, 0x31, 0x63])) = []
   \<and> onStdinData 1000 [0x1B, 0x5B, 0x49, 0x1B, 0x5B, 0x3F, 0x31, 0x63] attached_session
        = attached_session
   \<and> strip_responses (strip_focus (toString [0x61, 0x1B, 0x1B, 0x5B, 0x4F])) = [0x61, 0x1B]
   \<and> [0x61, 0x1B, 0x1B, 0x5B, 0x4F] ! 1 = (0x1B :: byte)
   \<and> [0x61, 0x1B, 0x1B, 0x5B, 0x4F] ! 2 = (0x1B :: byte)
   \<and> detached (onStdinData 1000 [0x61, 0x1B, 0x1B, 0x5B, 0x4F] attached_session)
   \<and> ptyInput (heap (onStdinData 1000 [0x61, 0x1B, 0x1B, 0x5B, 0x4F] attached_session) 0) = []"
proof -
  let ?D1 = "[0x61, 0x1B, 0x5B, 0x3E, 0x30, 0x63, 0x62] :: byte list"
  let ?D2 = "[0x1B, 0x5B, 0x49, 0x1B, 0x5B, 0x3F, 0x31, 0x63] :: byte list"
  let ?D3 = "[0x61, 0x1B, 0x1B, 0x5B, 0x4F] :: byte list"
  have h: "\<not> detached attached_session" "\<not> cleanedUp attached_session"
    by (simp_all add: attached_session_def)
  have e1: "toString ?D1 = [0x61, 0x1B, 0x5B, 0x3E, 0x30, 0x63, 0x62]"
    and e2: "toString ?D2 = [0x1B, 0x5B, 0x49, 0x1B, 0x5B, 0x3F, 0x31, 0x63]"
    and e3: "toString ?D3 = [0x61, 0x1B, 0x1B, 0x5B, 0x4F]"
    by (simp_all add: toString_def)
  have q: "report_or_response [0x30] (take 5 (drop 1 (toString ?D1)))"
    unfolding e1 by (simp add: report_or_response_def parameter_text_def)
  have s1: "strip_responses (strip_focus (toString ?D1)) = [0x61, 0x62]"
    unfolding e1
    by (simp add: strip_responses_def strip_focus_def split_join_def match_literal_def
        FOCUS_IN_SEQ_def FOCUS_OUT_SEQ_def match_da_question_def match_da_greater_def
        match_csi_u_def match_csi_def match_params_def is_param_def)
  have s2: "strip_responses (strip_focus (toString ?D2)) = []"
    unfolding e2
    by (simp add: strip_responses_def strip_focus_def split_join_def match_literal_def
        FOCUS_IN_SEQ_def FOCUS_OUT_SEQ_def match_da_question_def match_da_greater_def
        match_csi_u_def match_csi_def match_params_def is_param_def)
  have s3: "strip_responses (strip_focus (toString ?D3)) = [0x61, 0x1B]"
    unfolding e3
    by (simp add: strip_responses_def strip_focus_def split_join_def match_literal_def
        FOCUS_IN_SEQ_def FOCUS_OUT_SEQ_def match_da_question_def match_da_greater_def
        match_csi_u_def match_csi_def match_params_def is_param_def)
  have k1: "\<not> (\<exists>b\<in>set ?D1. b = 0x1D \<or> b = 0x1C \<or> b = 0x1E \<or> b = 0x1F)" by simp
  have x1: "\<not> (\<exists>i. Suc i < length ?D1 \<and> ?D1 ! i = 0x1B \<and> ?D1 ! Suc i = 0x1B)"
    unfolding double_escape_iff[symmetric] by (simp add: ESCAPE_def)
  have u1: "\<forall>seq\<in>set CSI_U_DETACH_SEQS.
      \<not> sublist seq (strip_responses (strip_focus (toString ?D1)))"
    using csi_u_detach_iff[of "[0x61, 0x62]"]
    by (simp add: s1 has_csi_u_detach_def CSI_U_DETACH_SEQS_def)
  have x3: "\<exists>i. Suc i < length ?D3 \<and> ?D3 ! i = 0x1B \<and> ?D3 ! Suc i = 0x1B"
    by (intro exI[of _ 1]) simp
  note t1 = terminal_sequences_never_forwarded[OF h, of 1000 ?D1]
  note t2 = terminal_sequences_never_forwarded[OF h, of 1000 ?D2]
  note t3 = terminal_sequences_never_forwarded[OF h, of 1000 ?D3]
  from t1 have a: "\<And>ps i n j. report_or_response ps (take n (drop i (toString ?D1)))
      \<and> i \<le> j \<and> j < i + n
      \<Longrightarrow> j \<notin> fst ` set (filter_tagged (enumerate 0 (toString ?D1)))" by blast
  have p: "3 \<notin> fst ` set (filter_tagged (enumerate 0 (toString ?D1)))"
    using q by (intro a[of "[0x30]" 5 1 3]) simp
  from t1 s1 k1 x1 u1 have w: "\<not> detached (onStdinData 1000 ?D1 attached_session)"
    "heap (onStdinData 1000 ?D1 attached_session)
       = (heap attached_session)(sessManager attached_session :=
            manager_write [0x61, 0x62] (heap attached_session (sessManager attached_session)))"
    by simp_all
  from w(2) have w': "ptyInput (heap (onStdinData 1000 ?D1 attached_session) 0) = [[0x61, 0x62]]"
    by (simp add: attached_session_def manager_write_def attach_def spawn_def new_manager_def)
  from t2 s2 have u: "onStdinData 1000 ?D2 attached_session = attached_session"
    by (simp add: debug_logged_def attached_session_def)
  from t3 s3 x3 have v: "detached (onStdinData 1000 ?D3 attached_session)"
    "\<forall>r. ptyInput (heap (onStdinData 1000 ?D3 attached_session) r)
        = ptyInput (heap attached_session r)"
    by simp_all
  from v(2) have v': "ptyInput (heap (onStdinData 1000 ?D3 attached_session) 0) = []"
    by (simp add: attached_session_def attach_def spawn_def new_manager_def)
  from q p s1 w(1) w' s2 u s3 v(1) v' show ?thesis by simp
qed

section \<open>Escape and double escape\<close>

lemma debug_logged_listener: "stdinListener (debug_logged data s) = stdinListener s"
  by (simp add: debug_logged_def emit_def)

lemma performDetach_time: "lastEscapeTime (performDetach s) = lastEscapeTime s"
  by (simp add: performDetach_def Let_def session_cleanup_def update_manager_def emit_def
      push_history_def split: option.splits)

lemma listening_debug: "listening r (debug_logged data s) = listening r s"
  by (simp add: listening_def debug_logged_fields debug_logged_listener)

lemma step_listening:
  assumes "listening r s"
  shows "listening r (onStdinData t d s)
     \<or> (detached (onStdinData t d s) \<and> \<not> stdinListener (onStdinData t d s))"
proof -
  from assms have l: "listening r (debug_logged d s)" by (simp add: listening_debug)
  then have d: "\<not> detached (debug_logged d s)" "\<not> cleanedUp (debug_logged d s)"
    by (simp_all add: listening_def)
  show ?thesis
  proof (cases t d s rule: onStdinData_outcomes)
    case dropped
    with l show ?thesis by simp
  next
    case detaches
    with performDetach_effect(1,6)[OF d] show ?thesis by simp
  next
    case forwards
    with l show ?thesis by (simp add: listening_def update_manager_def)
  qed
qed

lemma feed_stopped: "\<not> stdinListener s \<Longrightarrow> feed cs s = s"
  by (cases cs) auto

lemma feed_append: "feed (cs @ ds) s = feed ds (feed cs s)"
  by (induction cs arbitrary: s) (auto simp: feed_stopped)

lemma feed_listening:
  assumes "listening r s"
  shows "listening r (feed cs s) \<or> (detached (feed cs s) \<and> \<not> stdinListener (feed cs s))"
  using assms
proof (induction cs arbitrary: s)
  case Nil
  then show ?case by simp
next
  case (Cons c cs)
  obtain t d where c: "c = (t, d)" by (cases c)
  from Cons.prems have on: "stdinListener s" by (simp add: listening_def)
  from step_listening[OF Cons.prems, of t d] show ?case
  proof
    assume "listening r (onStdinData t d s)"
    from Cons.IH[OF this] show ?thesis using on by (simp add: c)
  next
    assume "detached (onStdinData t d s) \<and> \<not> stdinListener (onStdinData t d s)"
    then show ?thesis using on by (simp add: c feed_stopped)
  qed
qed

lemma feed_prefix:
  assumes "listening r s" "\<not> detached (feed (cs @ ds) s)"
  shows "listening r (feed cs s)"
proof -
  from feed_listening[OF assms(1), of cs] show ?thesis
  proof
    assume "detached (feed cs s) \<and> \<not> stdinListener (feed cs s)"
    then have "detached (feed (cs @ ds) s)" by (simp add: feed_append feed_stopped)
    with assms(2) show ?thesis by simp
  qed
qed

lemma feed_ignored:
  assumes "\<forall>c\<in>set ign. ignored (snd c)"
  shows "lastEscapeTime (feed ign s) = lastEscapeTime s \<and> heap (feed ign s) = heap s
     \<and> listening r (feed ign s) = listening r s"
  using assms
proof (induction ign arbitrary: s)
  case Nil
  then show ?case by simp
next
  case (Cons c ign)
  obtain t d where c: "c = (t, d)" by (cases c)
  from Cons.prems have i: "ignored d" and r: "\<forall>c\<in>set ign. ignored (snd c)" by (simp_all add: c)
  from i have e: "onStdinData t d s = debug_logged d s"
    by (simp add: onStdinData_cases ignored_def)
  show ?case
  proof (cases "stdinListener s")
    case True
    with Cons.IH[OF r, of "debug_logged d s"] show ?thesis
      by (simp add: c e debug_logged_fields listening_debug)
  next
    case False
    then show ?thesis by (simp add: c)
  qed
qed

lemma last_escape_range:
  "lastEscapeTime (feed cs s) = lastEscapeTime s \<or> lastEscapeTime (feed cs s) = 0
   \<or> (\<exists>t. (t, [0x1B]) \<in> set cs \<and> lastEscapeTime (feed cs s) = t)"
proof (induction cs arbitrary: s)
  case Nil
  then show ?case by simp
next
  case (Cons c cs)
  obtain t d where c: "c = (t, d)" by (cases c)
  show ?case
  proof (cases "stdinListener s")
    case False
    then show ?thesis by (simp add: c)
  next
    case True
    have st: "lastEscapeTime (onStdinData t d s) = lastEscapeTime s
        \<or> lastEscapeTime (onStdinData t d s) = 0
        \<or> (d = [0x1B] \<and> lastEscapeTime (onStdinData t d s) = t)"
      by (cases t d s rule: onStdinData_outcomes)
        (simp_all add: performDetach_time debug_logged_fields update_manager_def)
    from Cons.IH[of "onStdinData t d s"] st True show ?thesis
      by (auto simp: c)
  qed
qed

lemma last_escape_after:
  assumes "listening r s" "\<not> detached (feed (pre @ (t1, d) # ign) s)"
    "\<not> ignored d" "\<forall>c\<in>set ign. ignored (snd c)"
  shows "lastEscapeTime (feed (pre @ (t1, d) # ign) s) = (if d = [0x1B] then t1 else 0)"
proof -
  let ?p = "feed pre s"
  let ?a = "onStdinData t1 d ?p"
  have lp: "listening r ?p" using feed_prefix[OF assms(1), of pre "(t1, d) # ign"] assms(2)
    by simp
  then have on: "stdinListener ?p" by (simp add: listening_def)
  have f: "feed (pre @ (t1, d) # ign) s = feed ign ?a"
    using on by (simp add: feed_append)
  have la: "listening r ?a"
  proof -
    from step_listening[OF lp, of t1 d] show ?thesis
    proof
      assume "detached ?a \<and> \<not> stdinListener ?a"
      then have "detached (feed ign ?a)" by (simp add: feed_stopped)
      with assms(2) f show ?thesis by simp
    qed
  qed
  then have nd: "\<not> detached ?a" by (simp add: listening_def)
  from lp have d: "\<not> detached (debug_logged d ?p)" "\<not> cleanedUp (debug_logged d ?p)"
    by (simp_all add: listening_def debug_logged_fields)
  have "lastEscapeTime ?a = (if d = [0x1B] then t1 else 0)"
  proof (cases t1 d ?p rule: onStdinData_outcomes)
    case dropped
    with assms(3) show ?thesis by (simp add: ignored_def)
  next
    case detaches
    with performDetach_effect(1)[OF d] nd show ?thesis by simp
  next
    case forwards
    then show ?thesis by (simp add: update_manager_def)
  qed
  with feed_ignored[OF assms(4), of ?a r] f show ?thesis by simp
qed

lemma escape_step:
  assumes "listening r s"
  shows "(t - lastEscapeTime s < 500 \<longrightarrow> detach_triggered r s (onStdinData t [0x1B] s))
     \<and> (500 \<le> t - lastEscapeTime s \<longrightarrow> escape_forwarded r s (onStdinData t [0x1B] s))"
proof -
  from assms have d: "\<not> detached (debug_logged [0x1B] s)" "\<not> cleanedUp (debug_logged [0x1B] s)"
    and m: "sessManager s = r" "\<not> detached s"
    by (simp_all add: listening_def debug_logged_fields)
  show ?thesis
    using performDetach_effect(1,2)[OF d] m onStdinData_single_escape[of t s]
    by (simp add: ESCAPE_def detach_triggered_def escape_forwarded_def debug_logged_fields
        detach_def forwarded_escape_fields)
qed

lemma start_listening:
  assumes "runInteractiveSession r s = Inr s0"
  shows "listening r s0" "lastEscapeTime s0 = 0"
  using assms by (auto simp: runInteractiveSession_def listening_def split: if_splits)

text \<open>
  C4, as the code has it. The session has been started by \<open>runInteractiveSession\<close> and
  is still attached after the chunks \<open>cs\<close>; the times are values of \<open>Date.now()\<close>,
  milliseconds since 1970, so 500 at least.
  A chunk with two adjacent escape bytes triggers detach, unless it is ignored, and an
  ignored chunk changes nothing.
  A single-byte escape chunk that comes after a single-byte escape chunk, with only ignored
  chunks between the two, triggers detach when it comes less than 500 ms after it, and is
  forwarded when it comes 500 ms after it or later.
  A single-byte escape chunk is forwarded when the last chunk before it that was not
  ignored is not a single-byte escape chunk.
  A single-byte escape chunk is forwarded when no single-byte escape chunk came in the
  500 ms before it: a lone escape is a normal keypress, and the one before a second escape
  has been forwarded as well.
\<close>

theorem escape_detach_rules:
  assumes "runInteractiveSession r s = Inr s0" and "\<not> detached (feed cs s0)"
  shows "((\<exists>i. Suc i < length data \<and> data ! i = 0x1B \<and> data ! Suc i = 0x1B) \<and> \<not> ignored data
            \<longrightarrow> detach_triggered r (feed cs s0) (feed (cs @ [(t, data)]) s0))
     \<and> (ignored data \<longrightarrow> feed (cs @ [(t, data)]) s0 = debug_logged data (feed cs s0))
     \<and> (cs = pre @ (t1, [0x1B]) # ign \<and> (\<forall>c\<in>set ign. ignored (snd c)) \<and> t - t1 < 500
            \<longrightarrow> detach_triggered r (feed cs s0) (feed (cs @ [(t, [0x1B])]) s0))
     \<and> (cs = pre @ (t1, [0x1B]) # ign \<and> (\<forall>c\<in>set ign. ignored (snd c)) \<and> 500 \<le> t - t1
            \<longrightarrow> escape_forwarded r (feed cs s0) (feed (cs @ [(t, [0x1B])]) s0))
     \<and> (cs = pre @ (t1, d) # ign \<and> d \<noteq> [0x1B] \<and> \<not> ignored d
          \<and> (\<forall>c\<in>set ign. ignored (snd c)) \<and> 500 \<le> t
            \<longrightarrow> escape_forwarded r (feed cs s0) (feed (cs @ [(t, [0x1B])]) s0))
     \<and> (500 \<le> t \<and> (\<forall>c\<in>set cs. snd c = [0x1B] \<longrightarrow> fst c + 500 \<le> t)
            \<longrightarrow> escape_forwarded r (feed cs s0) (feed (cs @ [(t, [0x1B])]) s0))"
proof -
  note st = start_listening[OF assms(1)]
  let ?s1 = "feed cs s0"
  have l: "listening r ?s1" using feed_prefix[OF st(1), of cs "[]"] assms(2) by simp
  then have on: "stdinListener ?s1" by (simp add: listening_def)
  have snoc: "feed (cs @ [(t, x)]) s0 = onStdinData t x ?s1" for x
    using on by (simp add: feed_append)
  have ne: "\<not> ignored [0x1B]" using single_escape_text(1,2) by (simp add: ignored_def ESCAPE_def)
  have A: "(\<exists>i. Suc i < length data \<and> data ! i = 0x1B \<and> data ! Suc i = 0x1B) \<and> \<not> ignored data
            \<longrightarrow> detach_triggered r ?s1 (feed (cs @ [(t, data)]) s0)"
  proof
    assume h: "(\<exists>i. Suc i < length data \<and> data ! i = 0x1B \<and> data ! Suc i = 0x1B)
        \<and> \<not> ignored data"
    then have de: "has_double_escape data" by (simp add: double_escape_iff)
    from l have d: "\<not> detached (debug_logged data ?s1)" "\<not> cleanedUp (debug_logged data ?s1)"
      and m: "sessManager ?s1 = r"
      by (simp_all add: listening_def debug_logged_fields)
    from h de show "detach_triggered r ?s1 (feed (cs @ [(t, data)]) s0)"
      using performDetach_effect(1,2)[OF d] m
      by (simp add: snoc onStdinData_cases ignored_def detach_triggered_def
          debug_logged_fields detach_def)
  qed
  have B: "ignored data \<longrightarrow> feed (cs @ [(t, data)]) s0 = debug_logged data ?s1"
    by (simp add: snoc onStdinData_cases ignored_def)
  have C: "cs = pre @ (t1, [0x1B]) # ign \<and> (\<forall>c\<in>set ign. ignored (snd c)) \<and> t - t1 < 500
            \<longrightarrow> detach_triggered r ?s1 (feed (cs @ [(t, [0x1B])]) s0)"
  proof
    assume h: "cs = pre @ (t1, [0x1B]) # ign \<and> (\<forall>c\<in>set ign. ignored (snd c)) \<and> t - t1 < 500"
    then have eq: "cs = pre @ (t1, [0x1B]) # ign" and ig: "\<forall>c\<in>set ign. ignored (snd c)"
      and lt: "t - t1 < 500" by simp_all
    have "lastEscapeTime ?s1 = t1"
      using last_escape_after[OF st(1) _ ne ig, of pre t1] assms(2) unfolding eq by simp
    with lt escape_step[OF l, of t] show "detach_triggered r ?s1 (feed (cs @ [(t, [0x1B])]) s0)"
      by (simp add: snoc)
  qed
  have D: "cs = pre @ (t1, [0x1B]) # ign \<and> (\<forall>c\<in>set ign. ignored (snd c)) \<and> 500 \<le> t - t1
            \<longrightarrow> escape_forwarded r ?s1 (feed (cs @ [(t, [0x1B])]) s0)"
  proof
    assume h: "cs = pre @ (t1, [0x1B]) # ign \<and> (\<forall>c\<in>set ign. ignored (snd c)) \<and> 500 \<le> t - t1"
    then have eq: "cs = pre @ (t1, [0x1B]) # ign" and ig: "\<forall>c\<in>set ign. ignored (snd c)"
      and ge: "500 \<le> t - t1" by simp_all
    have "lastEscapeTime ?s1 = t1"
      using last_escape_after[OF st(1) _ ne ig, of pre t1] assms(2) unfolding eq by simp
    with ge escape_step[OF l, of t] show "escape_forwarded r ?s1 (feed (cs @ [(t, [0x1B])]) s0)"
      by (simp add: snoc)
  qed
  have E: "cs = pre @ (t1, d) # ign \<and> d \<noteq> [0x1B] \<and> \<not> ignored d
          \<and> (\<forall>c\<in>set ign. ignored (snd c)) \<and> 500 \<le> t
            \<longrightarrow> escape_forwarded r ?s1 (feed (cs @ [(t, [0x1B])]) s0)"
  proof
    assume h: "cs = pre @ (t1, d) # ign \<and> d \<noteq> [0x1B] \<and> \<not> ignored d
          \<and> (\<forall>c\<in>set ign. ignored (snd c)) \<and> 500 \<le> t"
    then have eq: "cs = pre @ (t1, d) # ign" and ig: "\<forall>c\<in>set ign. ignored (snd c)"
      and nd: "d \<noteq> [0x1B]" "\<not> ignored d" and ge: "500 \<le> t" by simp_all
    have "lastEscapeTime ?s1 = 0"
      using last_escape_after[OF st(1) _ nd(2) ig, of pre t1] assms(2) nd(1) unfolding eq
      by simp
    with ge escape_step[OF l, of t] show "escape_forwarded r ?s1 (feed (cs @ [(t, [0x1B])]) s0)"
      by (simp add: snoc)
  qed
  have F: "500 \<le> t \<and> (\<forall>c\<in>set cs. snd c = [0x1B] \<longrightarrow> fst c + 500 \<le> t)
            \<longrightarrow> escape_forwarded r ?s1 (feed (cs @ [(t, [0x1B])]) s0)"
  proof
    assume h: "500 \<le> t \<and> (\<forall>c\<in>set cs. snd c = [0x1B] \<longrightarrow> fst c + 500 \<le> t)"
    from last_escape_range[of cs s0] st(2)
    have "lastEscapeTime ?s1 = 0 \<or> (\<exists>t'. (t', [0x1B]) \<in> set cs \<and> lastEscapeTime ?s1 = t')"
      by auto
    with h have "500 \<le> t - lastEscapeTime ?s1" by fastforce
    with escape_step[OF l, of t] show "escape_forwarded r ?s1 (feed (cs @ [(t, [0x1B])]) s0)"
      by (simp add: snoc)
  qed
  from A B C D E F show ?thesis by (intro conjI)
qed

text \<open>
  C4, where the claim fails. The chunk ESC ESC [ I [ O has two adjacent escape bytes:
  deleting the focus-in report leaves ESC [ O, deleting the focus-out report leaves nothing,
  and the listener returns before it looks at the bytes, so the session stays attached.
  And of the chunks ESC at 1000, a at 1100 and ESC at 1200, the second escape comes 200 ms
  after a single-byte escape chunk, yet it does not detach: the chunk between them has set
  \<open>lastEscapeTime\<close> back to 0, and all three are written to the subprocess.
\<close>

theorem escapes_that_do_not_detach:
  "[0x1B, 0x1B, 0x5B, 0x49, 0x5B, 0x4F] ! 0 = (0x1B :: byte)
   \<and> [0x1B, 0x1B, 0x5B, 0x49, 0x5B, 0x4F] ! 1 = (0x1B :: byte)
   \<and> \<not> detached attached_session
   \<and> onStdinData 1000 [0x1B, 0x1B, 0x5B, 0x49, 0x5B, 0x4F] attached_session = attached_session
   \<and> \<not> detached (onStdinData 1200 [0x1B]
          (onStdinData 1100 [0x61] (onStdinData 1000 [0x1B] attached_session)))
   \<and> ptyInput (heap (onStdinData 1200 [0x1B]
          (onStdinData 1100 [0x61] (onStdinData 1000 [0x1B] attached_session))) 0)
        = [[0x1B], [0x61], [0x1B]]"
proof -
  have e: "onStdinData 1000 [0x1B, 0x1B, 0x5B, 0x49, 0x5B, 0x4F] attached_session
      = attached_session"
    by (simp add: ESCAPE_def onStdinData_def Let_def toString_def strip_responses_def
        strip_focus_def split_join_def match_literal_def FOCUS_IN_SEQ_def FOCUS_OUT_SEQ_def
        debug_logged_def attached_session_def)
  let ?s1 = "update_manager 0 (manager_write [0x1B]) (attached_session\<lparr>lastEscapeTime := 1000\<rparr>)"
  let ?s2 = "update_manager 0 (manager_write [0x61]) (?s1\<lparr>lastEscapeTime := 0\<rparr>)"
  let ?s3 = "update_manager 0 (manager_write [0x1B]) (?s2\<lparr>lastEscapeTime := 1200\<rparr>)"
  have a1: "onStdinData 1000 [0x1B] attached_session = ?s1"
    using onStdinData_single_escape[of 1000 attached_session]
    by (simp add: ESCAPE_def debug_logged_def attached_session_def)
  have f: "strip_responses (strip_focus (toString [0x61])) = [0x61]"
    "\<not> has_csi_u_detach [0x61]" "\<not> has_detach_key [0x61]"
    by (simp_all add: toString_def strip_responses_def strip_focus_def split_join_def
        match_literal_def FOCUS_IN_SEQ_def FOCUS_OUT_SEQ_def match_da_question_def
        match_da_greater_def match_csi_u_def match_csi_def has_csi_u_detach_def
        CSI_U_DETACH_SEQS_def has_detach_key_def is_detach_key_def CTRL_BRACKET_def
        CTRL_BACKSLASH_def CTRL_CARET_def CTRL_UNDERSCORE_def)
  have a2: "onStdinData 1100 [0x61] ?s1 = ?s2"
    using f
    by (simp add: onStdinData_cases debug_logged_def update_manager_def attached_session_def)
  have a3: "onStdinData 1200 [0x1B] ?s2 = ?s3"
    using onStdinData_single_escape[of 1200 ?s2]
    by (simp add: ESCAPE_def debug_logged_def update_manager_def attached_session_def)
  have r: "\<not> detached ?s3" "ptyInput (heap ?s3 0) = [[0x1B], [0x61], [0x1B]]"
    by (simp_all add: update_manager_def manager_write_def attached_session_def attach_def
        spawn_def new_manager_def)
  have "\<not> detached attached_session" by (simp add: attached_session_def)
  with e r show ?thesis by (simp add: a1 a2 a3)
qed

theorem escape_detach_rules_witness:
  "runInteractiveSession 0 attached_session = Inr attached_session
   \<and> \<not> detached (feed [] attached_session)
   \<and> [0x1B, 0x1B] ! 0 = (0x1B :: byte) \<and> [0x1B, 0x1B] ! 1 = (0x1B :: byte)
   \<and> \<not> ignored [0x1B, 0x1B]
   \<and> detach_triggered 0 attached_session (feed [(1000, [0x1B, 0x1B])] attached_session)
   \<and> ignored [0x1B, 0x5B, 0x49] \<and> \<not> ignored [0x61]
   \<and> escape_forwarded 0 attached_session (feed [(1000, [0x1B])] attached_session)
   \<and> \<not> detached (feed [(1000, [0x1B]), (1100, [0x1B, 0x5B, 0x49])] attached_session)
   \<and> detach_triggered 0 (feed [(1000, [0x1B]), (1100, [0x1B, 0x5B, 0x49])] attached_session)
        (feed [(1000, [0x1B]), (1100, [0x1B, 0x5B, 0x49]), (1200, [0x1B])] attached_session)
   \<and> escape_forwarded 0 (feed [(1000, [0x1B]), (1100, [0x1B, 0x5B, 0x49])] attached_session)
        (feed [(1000, [0x1B]), (1100, [0x1B, 0x5B, 0x49]), (1600, [0x1B])] attached_session)
   \<and> \<not> detached (feed [(1000, [0x1B]), (1100, [0x61])] attached_session)
   \<and> escape_forwarded 0 (feed [(1000, [0x1B]), (1100, [0x61])] attached_session)
        (feed [(1000, [0x1B]), (1100, [0x61]), (1200, [0x1B])] attached_session)"
proof -
  let ?A = "attached_session"
  let ?F = "[0x1B, 0x5B, 0x49] :: byte list"
  have st: "runInteractiveSession 0 ?A = Inr ?A"
    by (simp add: runInteractiveSession_def attached_session_def attach_def spawn_def
        new_manager_def)
  have n0: "\<not> detached (feed [] ?A)" by (simp add: attached_session_def)
  have ig: "\<not> ignored [0x1B, 0x1B]" "ignored ?F" "\<not> ignored [0x61]"
    by (simp_all add: ignored_def toString_def strip_responses_def strip_focus_def
        split_join_def match_literal_def FOCUS_IN_SEQ_def FOCUS_OUT_SEQ_def
        match_da_question_def match_da_greater_def match_csi_u_def match_csi_def)
  have x: "\<exists>i. Suc i < length [0x1B, 0x1B :: byte] \<and> [0x1B, 0x1B :: byte] ! i = 0x1B
      \<and> [0x1B, 0x1B :: byte] ! Suc i = 0x1B"
    by (intro exI[of _ 0]) simp
  note t0 = escape_detach_rules[OF st n0]
  from t0[of "[0x1B, 0x1B]" 1000] x ig(1)
  have a: "detach_triggered 0 ?A (feed [(1000, [0x1B, 0x1B])] ?A)" by simp
  from t0[of _ 1000] have b: "escape_forwarded 0 ?A (feed [(1000, [0x1B])] ?A)" by simp
  then have n1: "\<not> detached (feed [(1000, [0x1B])] ?A)" by (simp add: escape_forwarded_def)
  note t1 = escape_detach_rules[OF st n1]
  from t1[of ?F 1100] ig(2)
  have e2: "feed [(1000, [0x1B]), (1100, ?F)] ?A = debug_logged ?F (feed [(1000, [0x1B])] ?A)"
    by simp
  with n1 have n2: "\<not> detached (feed [(1000, [0x1B]), (1100, ?F)] ?A)"
    by (simp only: debug_logged_fields) simp
  note t2 = escape_detach_rules[OF st n2]
  from t2[of _ 1200 "[]" 1000 "[(1100, ?F)]"] ig(2)
  have c: "detach_triggered 0 (feed [(1000, [0x1B]), (1100, ?F)] ?A)
      (feed [(1000, [0x1B]), (1100, ?F), (1200, [0x1B])] ?A)" by simp
  from t2[of _ 1600 "[]" 1000 "[(1100, ?F)]"] ig(2)
  have d: "escape_forwarded 0 (feed [(1000, [0x1B]), (1100, ?F)] ?A)
      (feed [(1000, [0x1B]), (1100, ?F), (1600, [0x1B])] ?A)" by simp
  let ?s1 = "update_manager 0 (manager_write [0x1B]) (?A\<lparr>lastEscapeTime := 1000\<rparr>)"
  have a1: "onStdinData 1000 [0x1B] ?A = ?s1"
    using onStdinData_single_escape[of 1000 ?A]
    by (simp add: ESCAPE_def debug_logged_def attached_session_def)
  have f1: "feed [(1000, [0x1B]), (1100, [0x61])] ?A = onStdinData 1100 [0x61] ?s1"
    by (simp add: a1) (simp add: attached_session_def update_manager_def)
  have n3: "\<not> detached (feed [(1000, [0x1B]), (1100, [0x61])] ?A)"
  proof -
    have h1: "\<not> detached ?s1" by (simp add: update_manager_def attached_session_def)
    have "strip_responses (strip_focus (toString [0x61])) = [0x61]"
      "\<not> has_csi_u_detach [0x61]" "\<not> has_detach_key [0x61]"
      by (simp_all add: toString_def strip_responses_def strip_focus_def split_join_def
          match_literal_def FOCUS_IN_SEQ_def FOCUS_OUT_SEQ_def match_da_question_def
          match_da_greater_def match_csi_u_def match_csi_def has_csi_u_detach_def
          CSI_U_DETACH_SEQS_def has_detach_key_def is_detach_key_def CTRL_BRACKET_def
          CTRL_BACKSLASH_def CTRL_CARET_def CTRL_UNDERSCORE_def)
    with h1 have "\<not> detached (onStdinData 1100 [0x61] ?s1)"
      by (simp add: onStdinData_cases update_manager_def debug_logged_fields)
    then show ?thesis unfolding f1 .
  qed
  note t3 = escape_detach_rules[OF st n3]
  from t3[of _ 1200 "[(1000, [0x1B])]" 1100 "[]" "[0x61]"] ig(3)
  have g: "escape_forwarded 0 (feed [(1000, [0x1B]), (1100, [0x61])] ?A)
      (feed [(1000, [0x1B]), (1100, [0x61]), (1200, [0x1B])] ?A)" by simp
  from st n0 ig a b n2 c d n3 g show ?thesis by simp
qed

lemma enforce_history_limit_drop:
  "enforce_history_limit h = drop (length h - MAX_HISTORY_SIZE) h"
proof (induction h rule: enforce_history_limit.induct)
  case (1 h)
  show ?case
  proof (cases "length h > MAX_HISTORY_SIZE")
    case True
    then have "h \<noteq> []" by auto
    have "enforce_history_limit h = enforce_history_limit (tl h)"
      using True by (subst enforce_history_limit.simps) simp
    also have "\<dots> = drop (length (tl h) - MAX_HISTORY_SIZE) (tl h)" using 1 True by simp
    also have "\<dots> = drop (length h - MAX_HISTORY_SIZE) h"
      using True \<open>h \<noteq> []\<close> by (cases h) (simp_all add: Suc_diff_le)
    finally show ?thesis .
  next
    case False
    then show ?thesis by (subst enforce_history_limit.simps) simp
  qed
qed

lemma enforce_history_limit_length:
  "length (enforce_history_limit h) \<le> MAX_HISTORY_SIZE"
  by (simp add: enforce_history_limit_drop)

lemma push_history_fields:
  "length (conversationHistory (push_history msg s)) \<le> MAX_HISTORY_SIZE"
  "ptyManagers (push_history msg s) = ptyManagers s"
  "heap (push_history msg s) = heap s"
  "nextRef (push_history msg s) = nextRef s"
  "registry (push_history msg s) = registry s"
  "activeTool (push_history msg s) = activeTool s"
  by (simp_all add: push_history_def enforce_history_limit_length)

lemma emit_fields:
  "conversationHistory (emit evs s) = conversationHistory s"
  "ptyManagers (emit evs s) = ptyManagers s"
  "heap (emit evs s) = heap s"
  "nextRef (emit evs s) = nextRef s"
  "registry (emit evs s) = registry s"
  "activeTool (emit evs s) = activeTool s"
  "sessManager (emit evs s) = sessManager s"
  "detached (emit evs s) = detached s"
  "cleanedUp (emit evs s) = cleanedUp s"
  by (simp_all add: emit_def)

lemma update_manager_fields:
  "conversationHistory (update_manager r f s) = conversationHistory s"
  "ptyManagers (update_manager r f s) = ptyManagers s"
  "heap (update_manager r f s) = (heap s)(r := f (heap s r))"
  "nextRef (update_manager r f s) = nextRef s"
  "registry (update_manager r f s) = registry s"
  "activeTool (update_manager r f s) = activeTool s"
  "sessManager (update_manager r f s) = sessManager s"
  "detached (update_manager r f s) = detached s"
  "cleanedUp (update_manager r f s) = cleanedUp s"
  by (simp_all add: update_manager_def)

lemma manager_attached:
  "attached (kill m) = attached m" "attached (spawn w m) = attached m"
  "attached (process_exit m) = attached m" "attached (manager_write x m) = attached m"
  "attached (buffer_output cap rdy x m) = attached m"
  "attached (attach m)" "\<not> attached (detach m)" "\<not> attached (new_manager a)"
  by (simp_all add: kill_def spawn_def process_exit_def manager_write_def buffer_output_def
      attach_def detach_def new_manager_def)

lemma run_inv_quiet:
  assumes "run_inv (m, s)" "quiet s s'"
  shows "run_inv (m, s')"
  using assms
  by (cases m) (simp_all add: run_inv_def quiet_def wf_registry_def no_attached_def
      only_attached_def at_most_one_attached_def)

lemma quiet_emit: "quiet s (emit evs s)"
  by (simp add: quiet_def emit_fields)

lemma quiet_update:
  assumes "\<And>m. attached (f m) = attached m"
  shows "quiet s (update_manager r f s)"
  using assms by (simp add: quiet_def update_manager_fields)

lemma quiet_process_data: "quiet s (process_data r cap rdy x s)"
  by (simp add: quiet_def process_data_def Let_def emit_fields update_manager_fields
      manager_attached)

lemma quiet_trans: "quiet s s' \<Longrightarrow> quiet s' s'' \<Longrightarrow> quiet s s''"
  by (simp add: quiet_def)

lemma quiet_debug_logged: "quiet s (debug_logged data s)"
  by (simp add: debug_logged_def quiet_emit) (simp add: quiet_def)

lemma live_manager_Some:
  "live_manager s t = Some r \<longleftrightarrow> ptyManagers s t = Some r \<and> \<not> isDead (heap s r)"
  by (auto simp: live_manager_def split: option.splits)

section \<open>Every reachable state satisfies the invariant\<close>

lemma kill_existing_fields:
  "nextRef (kill_existing s) = nextRef s" "registry (kill_existing s) = registry s"
  "activeTool (kill_existing s) = activeTool s"
  "conversationHistory (kill_existing s) = conversationHistory s"
  "attached (heap (kill_existing s) r) = attached (heap s r)"
  "ptyManagers (kill_existing s) t = Some r \<Longrightarrow> ptyManagers s t = Some r"
  by (auto simp: kill_existing_def update_manager_fields manager_attached
      split: option.splits if_splits)

lemma request_failed_fields:
  "nextRef (request_failed s) = nextRef s" "registry (request_failed s) = registry s"
  "heap (request_failed s) = heap s" "ptyManagers (request_failed s) = ptyManagers s"
  "conversationHistory (request_failed s) = butlast (conversationHistory s)"
  by (simp_all add: request_failed_def emit_fields)

lemma sendToTool_shape:
  "sendToTool message outcome s = emit [Log PleaseWait] s
   \<or> (\<exists>s2 s4. ptyManagers s2 = ptyManagers s \<and> nextRef s2 = nextRef s
          \<and> registry s2 = registry s \<and> heap s2 = heap s
          \<and> length (conversationHistory s2) \<le> MAX_HISTORY_SIZE
          \<and> sendToTool message outcome s = s4\<lparr>requestInProgress := False\<rparr>
          \<and> (s4 = request_failed (kill_existing s2)
               \<or> (\<exists>msg evs. s4 = push_history msg (emit evs (kill_existing s2)))))"
proof (cases "requestInProgress s")
  case True
  then show ?thesis by (simp add: sendToTool_def)
next
  case False
  define s2 where "s2 = emit [Log Thinking]
      (push_history \<lparr>tool = activeTool s, role = User, content = message\<rparr>
         (s\<lparr>requestInProgress := True\<rparr>))"
  have q: "ptyManagers s2 = ptyManagers s" "nextRef s2 = nextRef s" "registry s2 = registry s"
    "heap s2 = heap s"
    by (simp_all add: s2_def emit_def push_history_def)
  have l: "length (conversationHistory s2) \<le> MAX_HISTORY_SIZE"
    by (simp add: s2_def emit_fields push_history_fields)
  define s4 where "s4 = (case registry (kill_existing s2) (activeTool (kill_existing s2)) of
      None \<Rightarrow> request_failed (kill_existing s2)
    | Some a \<Rightarrow> (case outcome of Inl e \<Rightarrow> request_failed (kill_existing s2)
        | Inr response \<Rightarrow> push_history
            \<lparr>tool = activeTool (kill_existing s2), role = Assistant, content = response\<rparr>
            (emit [Log (Rendered response)] (kill_existing s2))))"
  have e: "sendToTool message outcome s = s4\<lparr>requestInProgress := False\<rparr>"
    using False by (simp only: sendToTool_def Let_def s2_def s4_def if_False)
  have k: "s4 = request_failed (kill_existing s2)
      \<or> (\<exists>msg evs. s4 = push_history msg (emit evs (kill_existing s2)))"
    unfolding s4_def by (cases "registry (kill_existing s2) (activeTool (kill_existing s2))";
        cases outcome) auto
  show ?thesis
  proof (rule disjI2, rule exI[of _ s2], rule exI[of _ s4])
    show "ptyManagers s2 = ptyManagers s \<and> nextRef s2 = nextRef s
          \<and> registry s2 = registry s \<and> heap s2 = heap s
          \<and> length (conversationHistory s2) \<le> MAX_HISTORY_SIZE
          \<and> sendToTool message outcome s = s4\<lparr>requestInProgress := False\<rparr>
          \<and> (s4 = request_failed (kill_existing s2)
               \<or> (\<exists>msg evs. s4 = push_history msg (emit evs (kill_existing s2))))"
      using q l e k by (intro conjI)
  qed
qed

lemma sendToTool_fields:
  "nextRef (sendToTool message outcome s) = nextRef s"
  "registry (sendToTool message outcome s) = registry s"
  "attached (heap (sendToTool message outcome s) r) = attached (heap s r)"
  "ptyManagers (sendToTool message outcome s) t = Some r \<Longrightarrow> ptyManagers s t = Some r"
proof -
  from sendToTool_shape[of message outcome s]
  consider (busy) "sendToTool message outcome s = emit [Log PleaseWait] s"
    | (failed) s2 where "ptyManagers s2 = ptyManagers s" "nextRef s2 = nextRef s"
        "registry s2 = registry s" "heap s2 = heap s"
        "sendToTool message outcome s
           = (request_failed (kill_existing s2))\<lparr>requestInProgress := False\<rparr>"
    | (sent) s2 msg evs where "ptyManagers s2 = ptyManagers s" "nextRef s2 = nextRef s"
        "registry s2 = registry s" "heap s2 = heap s"
        "sendToTool message outcome s
           = (push_history msg (emit evs (kill_existing s2)))\<lparr>requestInProgress := False\<rparr>"
    by blast
  then have "nextRef (sendToTool message outcome s) = nextRef s
    \<and> registry (sendToTool message outcome s) = registry s
    \<and> attached (heap (sendToTool message outcome s) r) = attached (heap s r)
    \<and> (ptyManagers (sendToTool message outcome s) t = Some r \<longrightarrow> ptyManagers s t = Some r)"
  proof cases
    case busy
    then show ?thesis by (simp add: emit_fields)
  next
    case failed
    then show ?thesis using kill_existing_fields(6)[of s2 t r]
      by (simp add: request_failed_fields kill_existing_fields(1-5))
  next
    case sent
    then show ?thesis using kill_existing_fields(6)[of s2 t r]
      by (simp add: push_history_fields emit_fields kill_existing_fields(1-5))
  qed
  then show "nextRef (sendToTool message outcome s) = nextRef s"
    "registry (sendToTool message outcome s) = registry s"
    "attached (heap (sendToTool message outcome s) r) = attached (heap s r)"
    "ptyManagers (sendToTool message outcome s) t = Some r \<Longrightarrow> ptyManagers s t = Some r"
    by simp_all
qed

lemma sendToTool_history:
  assumes "length (conversationHistory s) \<le> MAX_HISTORY_SIZE"
  shows "length (conversationHistory (sendToTool message outcome s)) \<le> MAX_HISTORY_SIZE"
proof -
  from sendToTool_shape[of message outcome s]
  consider (busy) "sendToTool message outcome s = emit [Log PleaseWait] s"
    | (failed) s2 where "length (conversationHistory s2) \<le> MAX_HISTORY_SIZE"
        "sendToTool message outcome s
           = (request_failed (kill_existing s2))\<lparr>requestInProgress := False\<rparr>"
    | (sent) s2 msg evs where
        "sendToTool message outcome s
           = (push_history msg (emit evs (kill_existing s2)))\<lparr>requestInProgress := False\<rparr>"
    by blast
  then show ?thesis
  proof cases
    case busy
    with assms show ?thesis by (simp add: emit_fields)
  next
    case failed
    then show ?thesis by (simp add: request_failed_fields kill_existing_fields(1-5))
  next
    case sent
    then show ?thesis by (simp add: push_history_fields)
  qed
qed

lemma sendToTool_inv:
  assumes "run_inv (Prompting, s)"
  shows "run_inv (Prompting, sendToTool message outcome s)"
proof -
  from assms have wf: "wf_registry s" and na: "no_attached s"
    and h: "length (conversationHistory s) \<le> MAX_HISTORY_SIZE"
    by (simp_all add: run_inv_def)
  from wf have "wf_registry (sendToTool message outcome s)"
    unfolding wf_registry_def by (metis sendToTool_fields(1,2,4))
  moreover from na have "no_attached (sendToTool message outcome s)"
    unfolding no_attached_def by (metis sendToTool_fields(3,4))
  ultimately show ?thesis using sendToTool_history[OF h] by (simp add: run_inv_def)
qed

lemma cleanup_inv:
  assumes "length (conversationHistory s) \<le> MAX_HISTORY_SIZE"
  shows "run_inv (Prompting, (cleanup s)\<lparr>conversationHistory := h\<rparr>) \<longleftrightarrow> length h \<le> MAX_HISTORY_SIZE"
    and "run_inv (Stopped, cleanup s)"
  using assms
  by (simp_all add: run_inv_def cleanup_def wf_registry_def no_attached_def
      at_most_one_attached_def)

lemma getOrCreateManager_cases:
  obtains (reuse) r where "live_manager s t = Some r"
      "getOrCreateManager t w ok s = (Inr r, s)"
    | (unknown) "live_manager s t = None" "registry s t = None"
      "getOrCreateManager t w ok s = (Inl (UnknownTool t), s)"
    | (fresh) a where "live_manager s t = None" "registry s t = Some a"
      "getOrCreateManager t w ok s
         = (if ok then Inr (nextRef s) else Inl SpawnError,
            s\<lparr>heap := (heap s)(nextRef s := (if ok then spawn w (new_manager a) else new_manager a)),
              nextRef := Suc (nextRef s),
              ptyManagers := (ptyManagers s)(t \<mapsto> nextRef s),
              spawnLog := spawnLog s @ [nextRef s]\<rparr>)"
proof (cases "live_manager s t")
  case (Some r)
  then show ?thesis using reuse by (simp add: getOrCreateManager_def)
next
  case None
  show ?thesis
  proof (cases "registry s t")
    case N: None
    with None show ?thesis using unknown by (simp add: getOrCreateManager_def)
  next
    case (Some a)
    with None show ?thesis using fresh[of a]
      by (simp add: getOrCreateManager_def Let_def update_manager_def)
  qed
qed

lemma getOrCreateManager_inv:
  assumes "wf_registry s" "no_attached s" "getOrCreateManager t w ok s = (res, s')"
  shows "wf_registry s'" "no_attached s'"
    "conversationHistory s' = conversationHistory s"
    "\<And>r. res = Inr r \<Longrightarrow> r < nextRef s'"
proof -
  have "wf_registry s' \<and> no_attached s' \<and> conversationHistory s' = conversationHistory s
      \<and> (\<forall>r. res = Inr r \<longrightarrow> r < nextRef s')"
  proof (cases rule: getOrCreateManager_cases[of s t w ok])
    case (reuse r)
    with assms show ?thesis by (auto simp: live_manager_Some wf_registry_def)
  next
    case unknown
    with assms show ?thesis by auto
  next
    case (fresh a)
    with assms(3) have s': "s' = s\<lparr>heap := (heap s)(nextRef s :=
          (if ok then spawn w (new_manager a) else new_manager a)),
        nextRef := Suc (nextRef s), ptyManagers := (ptyManagers s)(t \<mapsto> nextRef s),
        spawnLog := spawnLog s @ [nextRef s]\<rparr>"
      and res: "res = (if ok then Inr (nextRef s) else Inl SpawnError)" by simp_all
    have lt: "\<And>t' r. ptyManagers s t' = Some r \<Longrightarrow> r < nextRef s"
      using assms(1) by (simp add: wf_registry_def)
    have "wf_registry s'"
      unfolding wf_registry_def
    proof (rule conjI; intro allI impI)
      fix t' r assume "ptyManagers s' t' = Some r"
      then have "(t' = t \<and> r = nextRef s) \<or> (t' \<noteq> t \<and> ptyManagers s t' = Some r)"
        by (auto simp: s' split: if_splits)
      then show "r < nextRef s' \<and> registry s' t' \<noteq> None"
        using fresh(2) lt assms(1) by (auto simp: s' wf_registry_def less_Suc_eq)
    next
      fix t1 t2 r assume "ptyManagers s' t1 = Some r \<and> ptyManagers s' t2 = Some r"
      then have "(t1 = t \<and> r = nextRef s) \<or> (t1 \<noteq> t \<and> ptyManagers s t1 = Some r)"
        "(t2 = t \<and> r = nextRef s) \<or> (t2 \<noteq> t \<and> ptyManagers s t2 = Some r)"
        by (auto simp: s' split: if_splits)
      then show "t1 = t2" using lt assms(1) unfolding wf_registry_def
        by (metis less_irrefl)
    qed
    moreover have "no_attached s'"
      using assms(2) lt unfolding no_attached_def s'
      by (auto simp: manager_attached split: if_splits)
    ultimately show ?thesis using res by (auto simp: s')
  qed
  then show "wf_registry s'" "no_attached s'"
    "conversationHistory s' = conversationHistory s"
    "\<And>r. res = Inr r \<Longrightarrow> r < nextRef s'" by simp_all
qed

lemma quiet_props:
  assumes "quiet s s'"
  shows "wf_registry s' = wf_registry s" "no_attached s' = no_attached s"
    "conversationHistory s' = conversationHistory s"
  using assms by (simp_all add: quiet_def wf_registry_def no_attached_def)

lemma only_attached_one:
  assumes "wf_registry s" "only_attached r s"
  shows "at_most_one_attached s"
  using assms unfolding wf_registry_def only_attached_def at_most_one_attached_def
  by metis

lemma no_attached_one: "no_attached s \<Longrightarrow> at_most_one_attached s"
  unfolding no_attached_def at_most_one_attached_def by blast

lemma attach_and_run_inv:
  assumes "wf_registry s" "no_attached s" "length (conversationHistory s) \<le> MAX_HISTORY_SIZE"
    and "attach_and_run r s = (res, s')"
  shows "case res of Some e \<Rightarrow> run_inv (Stopped, s') | None \<Rightarrow> run_inv (Interactive, s')"
proof -
  let ?s = "update_manager r attach s"
  have wf: "wf_registry ?s" using assms(1) by (simp add: wf_registry_def update_manager_fields)
  have oa: "only_attached r ?s" using assms(2)
    by (auto simp: only_attached_def no_attached_def update_manager_fields split: if_splits)
  have h: "length (conversationHistory ?s) \<le> MAX_HISTORY_SIZE"
    using assms(3) by (simp add: update_manager_fields)
  show ?thesis
  proof (cases "runInteractiveSession r ?s")
    case (Inl e)
    with assms(4) have "res = Some e" "s' = ?s" by (simp_all add: attach_and_run_def)
    then show ?thesis using wf h only_attached_one[OF wf oa] by (simp add: run_inv_def)
  next
    case (Inr s5)
    with assms(4) have r: "res = None" "s' = s5" by (simp_all add: attach_and_run_def)
    from Inr have s5: "s5 = ?s\<lparr>resizeListener := True,
      rawMode := (if isTTY ?s then True else rawMode ?s), sessManager := r, detached := False,
      lastEscapeTime := 0, stdinListener := True, cleanedUp := False, resolved := False\<rparr>"
      by (auto simp: runInteractiveSession_def split: if_splits)
    show ?thesis
      using wf oa h unfolding r s5 by (simp add: run_inv_def wf_registry_def only_attached_def)
  qed
qed

lemma enter_begin_inv:
  assumes "run_inv (Prompting, s)" "enterInteractiveMode_begin ok s = (res, s')"
  shows "case res of Inl e \<Rightarrow> run_inv (Stopped, s') | Inr l \<Rightarrow> run_inv (Entering l, s')"
proof -
  from assms(1) have wf: "wf_registry s" and na: "no_attached s"
    and h: "length (conversationHistory s) \<le> MAX_HISTORY_SIZE" by (simp_all add: run_inv_def)
  obtain g s1 where g: "getOrCreateManager (activeTool s) False ok s = (g, s1)"
    by (cases "getOrCreateManager (activeTool s) False ok s") auto
  note i = getOrCreateManager_inv[OF wf na g]
  show ?thesis
  proof (cases g)
    case (Inl e)
    with assms(2) g have "res = Inl e" "s' = s1"
      by (simp_all add: enterInteractiveMode_begin_def Let_def)
    with i h show ?thesis by (simp add: run_inv_def no_attached_one)
  next
    case (Inr r)
    with assms(2) g obtain l where "res = Inr l"
      and s': "s' = emit [Log EnteringInteractive] (s1\<lparr>rl := False\<rparr>)"
      by (auto simp: enterInteractiveMode_begin_def Let_def)
    have "quiet s1 s'" unfolding s' by (simp add: quiet_def emit_fields)
    from quiet_props[OF this] i h \<open>res = Inr l\<close> show ?thesis by (simp add: run_inv_def)
  qed
qed

lemma enter_finish_inv:
  assumes "run_inv (Entering l, s)" "enterInteractiveMode_finish l s = (res, s')"
  shows "case res of Some e \<Rightarrow> run_inv (Stopped, s') | None \<Rightarrow> run_inv (Interactive, s')"
proof -
  from assms(1) have wf: "wf_registry s" and na: "no_attached s"
    and h: "length (conversationHistory s) \<le> MAX_HISTORY_SIZE" by (simp_all add: run_inv_def)
  define s3 where "s3 = emit [Log DetachHint] (replay_buffer l (emit [Raw [0x0A]] s))"
  have "quiet s s3" unfolding s3_def
    by (cases l) (simp add: quiet_def emit_fields replay_buffer_def)
  from quiet_props[OF this] wf na h have p: "wf_registry s3" "no_attached s3"
    "length (conversationHistory s3) \<le> MAX_HISTORY_SIZE" by simp_all
  from assms(2) have "attach_and_run (fst l) s3 = (res, s')"
    by (simp add: enterInteractiveMode_finish_def s3_def)
  from attach_and_run_inv[OF p this] show ?thesis .
qed

lemma enter_direct_inv:
  assumes "run_inv (Prompting, s)"
    and "(case getOrCreateManager (activeTool s) False ok s of
            (Inl e, s1) \<Rightarrow> (Some e, s1)
          | (Inr r, s1) \<Rightarrow> attach_and_run r (emit [Log DetachHint] (s1\<lparr>rl := False\<rparr>)))
         = (res, s')"
  shows "case res of Some e \<Rightarrow> run_inv (Stopped, s') | None \<Rightarrow> run_inv (Interactive, s')"
proof -
  from assms(1) have wf: "wf_registry s" and na: "no_attached s"
    and h: "length (conversationHistory s) \<le> MAX_HISTORY_SIZE" by (simp_all add: run_inv_def)
  obtain g s1 where g: "getOrCreateManager (activeTool s) False ok s = (g, s1)"
    by (cases "getOrCreateManager (activeTool s) False ok s") auto
  note i = getOrCreateManager_inv[OF wf na g]
  show ?thesis
  proof (cases g)
    case (Inl e)
    with assms(2) g have "res = Some e" "s' = s1" by simp_all
    with i h show ?thesis by (simp add: run_inv_def no_attached_one)
  next
    case (Inr r)
    define s2 where "s2 = emit [Log DetachHint] (s1\<lparr>rl := False\<rparr>)"
    have "quiet s1 s2" unfolding s2_def by (simp add: quiet_def emit_fields)
    from quiet_props[OF this] i h have p: "wf_registry s2" "no_attached s2"
      "length (conversationHistory s2) \<le> MAX_HISTORY_SIZE" by simp_all
    from assms(2) g Inr have "attach_and_run r s2 = (res, s')" by (simp add: s2_def)
    from attach_and_run_inv[OF p this] show ?thesis .
  qed
qed

lemma onStdinData_shape:
  "onStdinData now data s = debug_logged data s
   \<or> onStdinData now data s = performDetach (debug_logged data s)
   \<or> (\<exists>x t. onStdinData now data s
          = update_manager (sessManager s) (manager_write x)
              ((debug_logged data s)\<lparr>lastEscapeTime := t\<rparr>))"
  by (auto simp: onStdinData_def Let_def debug_logged_fields)

lemma performDetach_registry:
  "ptyManagers (performDetach s) = ptyManagers s"
  "nextRef (performDetach s) = nextRef s"
  "registry (performDetach s) = registry s"
  by (simp_all add: performDetach_def Let_def session_cleanup_def update_manager_def emit_def
      push_history_def split: option.splits)

lemma performDetach_history_length:
  assumes "length (conversationHistory s) \<le> MAX_HISTORY_SIZE"
  shows "length (conversationHistory (performDetach s)) \<le> MAX_HISTORY_SIZE"
  using assms
  by (simp add: performDetach_def Let_def session_cleanup_def update_manager_def emit_def
      push_history_def enforce_history_limit_length split: option.splits)

lemma onStdinData_inv:
  assumes "run_inv (Interactive, s)"
  shows "run_inv (if detached (onStdinData now data s) then Prompting else Interactive,
                  onStdinData now data s)"
proof -
  let ?d = "debug_logged data s"
  have q: "quiet s ?d" by (rule quiet_debug_logged)
  from run_inv_quiet[OF assms q] have d: "run_inv (Interactive, ?d)" .
  then have wf: "wf_registry ?d" and oa: "only_attached (sessManager ?d) ?d"
    and nd: "\<not> detached ?d" "\<not> cleanedUp ?d"
    and h: "length (conversationHistory ?d) \<le> MAX_HISTORY_SIZE"
    by (simp_all add: run_inv_def)
  from onStdinData_shape[of now data s]
  consider (same) "onStdinData now data s = ?d"
    | (det) "onStdinData now data s = performDetach ?d"
    | (fwd) x t where "onStdinData now data s
          = update_manager (sessManager s) (manager_write x) (?d\<lparr>lastEscapeTime := t\<rparr>)"
    by blast
  then show ?thesis
  proof cases
    case same
    with d nd show ?thesis by simp
  next
    case det
    note e = performDetach_effect[OF nd]
    have "wf_registry (performDetach ?d)"
      using wf by (simp add: wf_registry_def performDetach_registry)
    moreover have "no_attached (performDetach ?d)"
      using oa unfolding no_attached_def only_attached_def
      by (auto simp: performDetach_registry e(2) manager_attached)
    ultimately show ?thesis using det e(1) performDetach_history_length[OF h]
      by (simp add: run_inv_def)
  next
    case fwd
    have "quiet ?d (update_manager (sessManager s) (manager_write x) (?d\<lparr>lastEscapeTime := t\<rparr>))"
      by (simp add: quiet_def update_manager_def manager_attached)
    from run_inv_quiet[OF d this] fwd nd show ?thesis
      by (simp add: update_manager_def)
  qed
qed

lemma start_inv: "run_inv (Prompting, (new_session reg t tty dbg)\<lparr>rl := True\<rparr>)"
  by (simp add: run_inv_def new_session_def wf_registry_def no_attached_def)

lemma reachable_inv: "reachable c \<Longrightarrow> run_inv c"
proof (induction rule: reachable.induct)
  case (start reg t tty dbg)
  show ?case by (rule start_inv)
next
  case (print m s evs)
  then show ?case using run_inv_quiet quiet_emit by blast
next
  case (switch s t)
  then show ?case by (simp add: run_inv_def wf_registry_def no_attached_def)
next
  case (send s message outcome)
  then show ?case by (simp add: sendToTool_inv)
next
  case (clear s)
  then show ?case using cleanup_inv(1)[of s "[]"] by (simp add: run_inv_def)
next
  case (quit s)
  then show ?case using cleanup_inv(2)[of s] by (simp add: run_inv_def)
next
  case (enter_fails s spawnOk e s')
  with enter_begin_inv[of s spawnOk "Inl e" s'] show ?case by simp
next
  case (enter_waits s spawnOk locals s')
  with enter_begin_inv[of s spawnOk "Inr locals" s'] show ?case by simp
next
  case (enter_rejects locals s e s')
  with enter_finish_inv[of locals s "Some e" s'] show ?case by simp
next
  case (enter_runs locals s s')
  with enter_finish_inv[of locals s None s'] show ?case by simp
next
  case (command_fails s spawnOk e s')
  with enter_direct_inv[of s spawnOk "Some e" s'] show ?case
    by (simp add: enterInteractiveModeWithCommand_def)
next
  case (command_runs s spawnOk s')
  with enter_direct_inv[of s spawnOk None s'] show ?case
    by (simp add: enterInteractiveModeWithCommand_def)
next
  case (prompt_fails s spawnOk e s')
  with enter_direct_inv[of s spawnOk "Some e" s'] show ?case
    by (simp add: enterInteractiveModeWithPrompt_def)
next
  case (prompt_runs s spawnOk s')
  with enter_direct_inv[of s spawnOk None s'] show ?case
    by (simp add: enterInteractiveModeWithPrompt_def)
next
  case (input s now data)
  then show ?case by (simp add: onStdinData_inv)
next
  case (exits m s r)
  then show ?case using run_inv_quiet quiet_update[of process_exit] manager_attached(3) by blast
next
  case (prints m s r cap ready x)
  then show ?case using run_inv_quiet quiet_process_data by blast
next
  case (typed m s r x)
  then show ?case using run_inv_quiet quiet_update manager_attached(4) by blast
qed

section \<open>Runs: a concrete run, one attached manager, unknown tools\<close>

lemma fresh_begin:
  "enterInteractiveMode_begin True fresh_session
     = (Inr (0, True, True),
        fresh_session\<lparr>heap := (\<lambda>r. new_manager blank_adapter)
                                (0 := spawn False (new_manager claude_adapter)),
          nextRef := 1, ptyManagers := [''claude'' \<mapsto> 0], spawnLog := [0], rl := False,
          stdout := [Log EnteringInteractive]\<rparr>)"
  by (simp add: enterInteractiveMode_begin_def Let_def fresh_session_def new_session_def
      live_manager_def getOrCreateManager_def two_tools_def update_manager_def emit_def
      isUserAttached_def spawn_def new_manager_def)

lemma fresh_finish:
  "enterInteractiveMode_finish (0, True, True)
     (fresh_session\<lparr>heap := (\<lambda>r. new_manager blank_adapter)
                                (0 := spawn False (new_manager claude_adapter)),
          nextRef := 1, ptyManagers := [''claude'' \<mapsto> 0], spawnLog := [0], rl := False,
          stdout := [Log EnteringInteractive]\<rparr>)
     = (None, attached_session)"
  by (simp add: enterInteractiveMode_finish_def attach_and_run_def replay_buffer_def
      runInteractiveSession_def fresh_session_def new_session_def update_manager_def emit_def
      attached_session_def spawn_def new_manager_def attach_def)

lemma fresh_session_reachable: "reachable (Prompting, fresh_session)"
  unfolding fresh_session_def by (rule reachable.start)

lemma attached_session_reachable: "reachable (Interactive, attached_session)"
  by (rule reachable.enter_runs[OF reachable.enter_waits[OF fresh_session_reachable fresh_begin]
        fresh_finish])

text \<open>
  C5. In every state a session can reach, whatever the sequence of commands, input chunks,
  subprocess output and exits, at most one tool of the map has an attached manager. While
  the prompt loop has the control no registered manager is attached at all: the three ways
  into interactive mode attach from the prompt loop only, and the loop gets the control
  back only when \<open>performDetach\<close> has detached the manager. In an interactive session
  the only manager that can be attached is the session's own.
\<close>

theorem at_most_one_attached_in_every_run:
  assumes "reachable (m, s)"
  shows "at_most_one_attached s
     \<and> (m = Prompting \<longrightarrow> no_attached s)
     \<and> (m = Interactive \<longrightarrow> only_attached (sessManager s) s)"
proof -
  from reachable_inv[OF assms] have i: "run_inv (m, s)" .
  then have wf: "wf_registry s" by (simp add: run_inv_def)
  show ?thesis
  proof (cases m)
    case Prompting
    with i show ?thesis by (simp add: run_inv_def no_attached_one)
  next
    case (Entering l)
    with i show ?thesis by (simp add: run_inv_def no_attached_one)
  next
    case Interactive
    with i have oa: "only_attached (sessManager s) s" by (simp add: run_inv_def)
    from only_attached_one[OF wf oa] oa Interactive show ?thesis by simp
  next
    case Stopped
    with i show ?thesis by (simp add: run_inv_def)
  qed
qed

lemma detach_chunk_state:
  "onStdinData 1000 [0x1D] attached_session = performDetach attached_session"
proof -
  have "has_detach_key [0x1D]"
    by (simp add: has_detach_key_def is_detach_key_def CTRL_BRACKET_def)
  from onStdinData_detach_key[OF this, of 1000 attached_session] show ?thesis
    by (simp add: debug_logged_def attached_session_def)
qed

theorem at_most_one_attached_in_every_run_witness:
  "reachable (Interactive, attached_session)
   \<and> ptyManagers attached_session ''claude'' = Some 0
   \<and> attached (heap attached_session 0)
   \<and> at_most_one_attached attached_session
   \<and> only_attached (sessManager attached_session) attached_session
   \<and> reachable (Prompting, onStdinData 1000 [0x1D] attached_session)
   \<and> no_attached (onStdinData 1000 [0x1D] attached_session)"
proof -
  have nd: "\<not> detached attached_session" "\<not> cleanedUp attached_session"
    by (simp_all add: attached_session_def)
  have d: "detached (onStdinData 1000 [0x1D] attached_session)"
    unfolding detach_chunk_state by (rule performDetach_effect(1)[OF nd])
  from reachable.input[OF attached_session_reachable, of 1000 "[0x1D]"] d
  have r: "reachable (Prompting, onStdinData 1000 [0x1D] attached_session)" by simp
  have f: "ptyManagers attached_session ''claude'' = Some 0" "attached (heap attached_session 0)"
    by (simp_all add: attached_session_def attach_def)
  from at_most_one_attached_in_every_run[OF attached_session_reachable]
    at_most_one_attached_in_every_run[OF r] attached_session_reachable r f
  show ?thesis by simp
qed

text \<open>
  C8. In every reachable state, \<open>getOrCreateManager\<close> for a tool that has no adapter
  raises the unknown-tool error and leaves the session as it was: the map of managers is
  unchanged and \<open>spawn\<close> has not been called.
\<close>

theorem unknown_tool_is_rejected:
  assumes "reachable (m, s)" and "registry s t = None"
  shows "getOrCreateManager t waitForReady spawnOk s = (Inl (UnknownTool t), s)
     \<and> ptyManagers (snd (getOrCreateManager t waitForReady spawnOk s)) = ptyManagers s
     \<and> spawnLog (snd (getOrCreateManager t waitForReady spawnOk s)) = spawnLog s"
proof -
  from reachable_inv[OF assms(1)] have "wf_registry s" by (simp add: run_inv_def)
  with assms(2) have "ptyManagers s t = None" unfolding wf_registry_def
    by (cases "ptyManagers s t") auto
  then have "live_manager s t = None" by (simp add: live_manager_def)
  with assms(2) show ?thesis by (simp add: getOrCreateManager_def)
qed

theorem unknown_tool_is_rejected_witness:
  "reachable (Prompting, fresh_session) \<and> registry fresh_session ''codex'' = None
   \<and> getOrCreateManager ''codex'' False True fresh_session
        = (Inl (UnknownTool ''codex''), fresh_session)"
proof -
  have r: "registry fresh_session ''codex'' = None"
    by (simp add: fresh_session_def new_session_def two_tools_def)
  from unknown_tool_is_rejected[OF fresh_session_reachable r, of False True]
    fresh_session_reachable r show ?thesis by simp
qed

section \<open>The conversation history\<close>

lemma enforce_keeps_last:
  "enforce_history_limit (h @ [msg]) \<noteq> [] \<and> last (enforce_history_limit (h @ [msg])) = msg"
proof -
  have "length (h @ [msg]) - MAX_HISTORY_SIZE \<le> length h"
    by (simp add: MAX_HISTORY_SIZE_def)
  then have "drop (length (h @ [msg]) - MAX_HISTORY_SIZE) (h @ [msg])
      = drop (length (h @ [msg]) - MAX_HISTORY_SIZE) h @ [msg]" by simp
  then show ?thesis by (simp add: enforce_history_limit_drop)
qed

lemma performDetach_history:
  assumes "\<not> detached s"
  shows "conversationHistory (performDetach s) =
     (case registry s (activeTool s) of
        None \<Rightarrow> conversationHistory s
      | Some a \<Rightarrow>
          if outputBuffer (heap s (sessManager s)) \<noteq> []
             \<and> 20 < length (cleanResponse a (outputBuffer (heap s (sessManager s))))
          then enforce_history_limit
                 (conversationHistory s
                  @ [\<lparr>tool = activeTool s, role = Assistant,
                      content = cleanResponse a (outputBuffer (heap s (sessManager s)))\<rparr>])
          else conversationHistory s)"
  using assms
  by (simp add: performDetach_def Let_def session_cleanup_def update_manager_def emit_def
      push_history_def split: option.splits)

text \<open>
  C10. When \<open>performDetach\<close> detaches, the buffer it took before detaching is recorded as
  an assistant message of the active tool, the history then being cut to its limit, exactly
  when the buffer is not empty, the active tool has an adapter, and the adapter's cleaned
  text has more than 20 code units; the message is then the last of the history. In every
  other case the history is what it was.
\<close>

theorem detach_records_output:
  assumes "\<not> detached s"
  shows "(outputBuffer (heap s (sessManager s)) \<noteq> []
          \<and> (\<exists>a. registry s (activeTool s) = Some a
                 \<and> 20 < length (cleanResponse a (outputBuffer (heap s (sessManager s)))))
          \<longrightarrow> (\<exists>a. registry s (activeTool s) = Some a
                 \<and> conversationHistory (performDetach s)
                      = enforce_history_limit
                          (conversationHistory s
                           @ [\<lparr>tool = activeTool s, role = Assistant,
                               content = cleanResponse a
                                           (outputBuffer (heap s (sessManager s)))\<rparr>])
                 \<and> last (conversationHistory (performDetach s))
                      = \<lparr>tool = activeTool s, role = Assistant,
                         content = cleanResponse a (outputBuffer (heap s (sessManager s)))\<rparr>))
     \<and> (\<not> (outputBuffer (heap s (sessManager s)) \<noteq> []
             \<and> (\<exists>a. registry s (activeTool s) = Some a
                    \<and> 20 < length (cleanResponse a (outputBuffer (heap s (sessManager s))))))
          \<longrightarrow> conversationHistory (performDetach s) = conversationHistory s)"
  using performDetach_history[OF assms] enforce_keeps_last
  by (auto split: option.splits)

theorem detach_records_output_witness:
  "\<not> detached (update_manager 0 (buffer_output 100 False (replicate 30 0x61)) attached_session)
   \<and> conversationHistory (performDetach
        (update_manager 0 (buffer_output 100 False (replicate 30 0x61)) attached_session))
      = [\<lparr>tool = ''claude'', role = Assistant, content = replicate 30 0x61\<rparr>]
   \<and> \<not> detached (update_manager 0 (buffer_output 100 False (replicate 20 0x61)) attached_session)
   \<and> conversationHistory (performDetach
        (update_manager 0 (buffer_output 100 False (replicate 20 0x61)) attached_session))
      = []"
proof -
  let ?s = "\<lambda>n. update_manager 0 (buffer_output 100 False (replicate n 0x61)) attached_session"
  have nd: "\<not> detached (?s n)" for n
    by (simp add: update_manager_def attached_session_def)
  have f: "outputBuffer (heap (?s n) (sessManager (?s n))) = drop (n - 100) (replicate n 0x61)"
    "registry (?s n) = two_tools"
    "activeTool (?s n) = ''claude''" "conversationHistory (?s n) = []" for n
    by (simp_all add: update_manager_def attached_session_def buffer_output_def attach_def
        spawn_def new_manager_def two_tools_def)
  have e: "enforce_history_limit [m] = [m]" for m
    by (subst enforce_history_limit.simps) (simp add: MAX_HISTORY_SIZE_def)
  from detach_records_output[OF nd[of 30]] detach_records_output[OF nd[of 20]] nd
  show ?thesis by (simp add: f e two_tools_def claude_adapter_def)
qed

lemma enforce_twice:
  "enforce_history_limit (enforce_history_limit (h @ [u]) @ [a])
     = drop (length h + 2 - MAX_HISTORY_SIZE) (h @ [u, a])"
proof -
  define k where "k = length h + 1 - MAX_HISTORY_SIZE"
  have k: "k \<le> length (h @ [u])" by (simp add: k_def)
  have "enforce_history_limit (h @ [u]) @ [a] = drop k (h @ [u]) @ [a]"
    by (simp add: enforce_history_limit_drop k_def)
  also have "\<dots> = drop k ((h @ [u]) @ [a])" using k by (simp only: drop_append) simp
  finally have e: "enforce_history_limit (h @ [u]) @ [a] = drop k (h @ [u, a])" by simp
  define X where "X = h @ [u, a]"
  have n: "length (drop k X) - MAX_HISTORY_SIZE + k = length h + 2 - MAX_HISTORY_SIZE"
    by (simp add: k_def X_def MAX_HISTORY_SIZE_def)
  have "enforce_history_limit (drop k X) = drop (length (drop k X) - MAX_HISTORY_SIZE) (drop k X)"
    by (rule enforce_history_limit_drop)
  also have "\<dots> = drop (length (drop k X) - MAX_HISTORY_SIZE + k) X" by (rule drop_drop)
  also have "\<dots> = drop (length h + 2 - MAX_HISTORY_SIZE) X" by (simp only: n)
  finally show ?thesis using e by (simp add: X_def)
qed

lemma sendToTool_history_sent:
  assumes "\<not> requestInProgress s" "registry s (activeTool s) = Some a"
  shows "conversationHistory (sendToTool message (Inr response) s)
     = enforce_history_limit
         (enforce_history_limit
            (conversationHistory s @ [\<lparr>tool = activeTool s, role = User, content = message\<rparr>])
          @ [\<lparr>tool = activeTool s, role = Assistant, content = response\<rparr>])"
  using assms
  by (simp add: sendToTool_def Let_def request_failed_fields kill_existing_fields(1-5)
      emit_fields push_history_def split: option.splits)

lemma sendToTool_history_failed:
  assumes "\<not> requestInProgress s"
  shows "conversationHistory (sendToTool message (Inl e) s)
     = butlast (enforce_history_limit
         (conversationHistory s @ [\<lparr>tool = activeTool s, role = User, content = message\<rparr>]))"
  using assms
  by (simp add: sendToTool_def Let_def request_failed_fields kill_existing_fields(1-5)
      emit_fields push_history_def split: option.splits)

text \<open>
  C9. In every state a session can reach the history has at most 1000 entries, and it
  still has after \<open>sendToTool\<close> and after \<open>performDetach\<close>. Each of the three places
  that append (the user message and the response in \<open>sendToTool\<close>, the captured output
  in \<open>performDetach\<close>) appends and then shifts while the history is too long, which
  keeps the newest 1000 entries of the extended history: what is cut is cut from the front.
  A request that succeeds leaves the newest 1000 of the history with the two messages; one
  that fails takes its user message back out.
\<close>

theorem conversation_history_bounded:
  assumes "reachable (m, s)"
  shows "length (conversationHistory s) \<le> 1000
     \<and> length (conversationHistory (sendToTool message outcome s)) \<le> 1000
     \<and> length (conversationHistory (performDetach s)) \<le> 1000
     \<and> length (conversationHistory (push_history msg s)) \<le> 1000
     \<and> conversationHistory (push_history msg s)
          = drop (length (conversationHistory s @ [msg]) - 1000) (conversationHistory s @ [msg])
     \<and> (\<not> requestInProgress s \<and> registry s (activeTool s) \<noteq> None
          \<longrightarrow> conversationHistory (sendToTool message (Inr response) s)
               = drop (length (conversationHistory s) + 2 - 1000)
                   (conversationHistory s
                    @ [\<lparr>tool = activeTool s, role = User, content = message\<rparr>,
                       \<lparr>tool = activeTool s, role = Assistant, content = response\<rparr>]))
     \<and> (\<not> requestInProgress s
          \<longrightarrow> conversationHistory (sendToTool message (Inl e) s)
               = butlast (drop (length (conversationHistory s) + 1 - 1000)
                   (conversationHistory s
                    @ [\<lparr>tool = activeTool s, role = User, content = message\<rparr>])))"
proof -
  from reachable_inv[OF assms] have h: "length (conversationHistory s) \<le> MAX_HISTORY_SIZE"
    by (simp add: run_inv_def)
  have m: "MAX_HISTORY_SIZE = 1000" by (rule MAX_HISTORY_SIZE_def)
  have a: "length (conversationHistory s) \<le> 1000" using h m by simp
  have b: "length (conversationHistory (sendToTool message outcome s)) \<le> 1000"
    using sendToTool_history[OF h] m by simp
  have c: "length (conversationHistory (performDetach s)) \<le> 1000"
    using performDetach_history_length[OF h] m by simp
  have d: "length (conversationHistory (push_history msg s)) \<le> 1000"
    using push_history_fields(1)[of msg s] m by simp
  have e: "conversationHistory (push_history msg s)
          = drop (length (conversationHistory s @ [msg]) - 1000) (conversationHistory s @ [msg])"
    by (simp add: push_history_def enforce_history_limit_drop m)
  have f: "\<not> requestInProgress s \<and> registry s (activeTool s) \<noteq> None
          \<longrightarrow> conversationHistory (sendToTool message (Inr response) s)
               = drop (length (conversationHistory s) + 2 - 1000)
                   (conversationHistory s
                    @ [\<lparr>tool = activeTool s, role = User, content = message\<rparr>,
                       \<lparr>tool = activeTool s, role = Assistant, content = response\<rparr>])"
    using sendToTool_history_sent[of s _ message response] enforce_twice m by auto
  have g: "\<not> requestInProgress s
          \<longrightarrow> conversationHistory (sendToTool message (Inl e) s)
               = butlast (drop (length (conversationHistory s) + 1 - 1000)
                   (conversationHistory s
                    @ [\<lparr>tool = activeTool s, role = User, content = message\<rparr>]))"
    using sendToTool_history_failed[of s message e] m
    by (simp add: enforce_history_limit_drop)
  from a b c d e f g show ?thesis by (intro conjI)
qed

theorem conversation_history_bounded_witness:
  "reachable (Prompting, fresh_session)
   \<and> \<not> requestInProgress fresh_session
   \<and> registry fresh_session (activeTool fresh_session) \<noteq> None
   \<and> conversationHistory (sendToTool [0x68, 0x69] (Inr [0x6F, 0x6B]) fresh_session)
       = [\<lparr>tool = ''claude'', role = User, content = [0x68, 0x69]\<rparr>,
          \<lparr>tool = ''claude'', role = Assistant, content = [0x6F, 0x6B]\<rparr>]
   \<and> conversationHistory (sendToTool [0x68, 0x69] (Inl SendError) fresh_session) = []
   \<and> length (conversationHistory (sendToTool [0x68, 0x69] (Inr [0x6F, 0x6B]) fresh_session))
       \<le> 1000"
proof -
  have f: "\<not> requestInProgress fresh_session"
    "registry fresh_session (activeTool fresh_session) \<noteq> None"
    "activeTool fresh_session = ''claude''" "conversationHistory fresh_session = []"
    by (simp_all add: fresh_session_def new_session_def two_tools_def)
  note t = conversation_history_bounded[OF fresh_session_reachable,
      of "[0x68, 0x69]" "Inr [0x6F, 0x6B]" _ "[0x6F, 0x6B]" SendError]
  from t f fresh_session_reachable show ?thesis by simp
qed

section \<open>Getting or creating a manager\<close>

lemma live_manager_None:
  "live_manager s t = None \<longleftrightarrow>
     (ptyManagers s t = None \<or> (\<exists>r. ptyManagers s t = Some r \<and> isDead (heap s r)))"
  by (auto simp: live_manager_def split: option.splits)

lemma kill_existing_not_live: "live_manager (kill_existing s) (activeTool s) = None"
  by (auto simp: kill_existing_def live_manager_def update_manager_def split: option.splits)

lemma live_manager_cong:
  "ptyManagers s' = ptyManagers s \<Longrightarrow> heap s' = heap s \<Longrightarrow> live_manager s' t = live_manager s t"
  by (simp add: live_manager_def split: option.splits)

lemma sendToTool_not_live:
  assumes "\<not> requestInProgress s"
  shows "live_manager (sendToTool message outcome s) (activeTool s) = None"
proof -
  define s2 where "s2 = emit [Log Thinking]
      (push_history \<lparr>tool = activeTool s, role = User, content = message\<rparr>
         (s\<lparr>requestInProgress := True\<rparr>))"
  have a: "activeTool s2 = activeTool s" by (simp add: s2_def emit_def push_history_def)
  have k: "live_manager (kill_existing s2) (activeTool s) = None"
    using kill_existing_not_live[of s2] a by simp
  have "ptyManagers (sendToTool message outcome s) = ptyManagers (kill_existing s2)
      \<and> heap (sendToTool message outcome s) = heap (kill_existing s2)"
    using assms
    by (simp add: sendToTool_def Let_def s2_def request_failed_fields emit_fields
        push_history_fields split: option.splits sum.splits)
  then show ?thesis using k live_manager_cong by metis
qed

text \<open>
  C6. In every reachable state: when the map holds a manager of the tool that is not dead,
  \<open>getOrCreateManager\<close> returns that manager and changes nothing, so nothing is
  spawned. When the tool has an adapter and the map holds no manager of it, or a dead one,
  a manager is constructed under a reference that no registered manager has, put into the
  map, and \<open>spawn\<close> is called on it; it is returned when the launch succeeds. After
  \<open>sendToTool\<close> has killed the manager of the active tool and taken it out of the map,
  the tool has no live manager, so the next \<open>getOrCreateManager\<close> for it spawns a new one.
\<close>

theorem getOrCreateManager_reuses_or_spawns:
  assumes "reachable (m, s)"
  shows "(\<forall>r. ptyManagers s t = Some r \<and> \<not> isDead (heap s r)
            \<longrightarrow> getOrCreateManager t w ok s = (Inr r, s))
     \<and> (\<forall>a. registry s t = Some a
            \<and> (ptyManagers s t = None \<or> (\<exists>r. ptyManagers s t = Some r \<and> isDead (heap s r)))
            \<longrightarrow> fst (getOrCreateManager t w ok s)
                  = (if ok then Inr (nextRef s) else Inl SpawnError)
                \<and> ptyManagers (snd (getOrCreateManager t w ok s))
                  = (ptyManagers s)(t \<mapsto> nextRef s)
                \<and> heap (snd (getOrCreateManager t w ok s))
                  = (heap s)(nextRef s := (if ok then spawn w (new_manager a) else new_manager a))
                \<and> spawnLog (snd (getOrCreateManager t w ok s)) = spawnLog s @ [nextRef s]
                \<and> nextRef (snd (getOrCreateManager t w ok s)) = Suc (nextRef s)
                \<and> (\<forall>t' r. ptyManagers s t' = Some r \<longrightarrow> r \<noteq> nextRef s))
     \<and> (m = Prompting \<and> \<not> requestInProgress s
            \<longrightarrow> reachable (Prompting, sendToTool message outcome s)
                \<and> (ptyManagers (sendToTool message outcome s) (activeTool s) = None
                     \<or> (\<exists>r. ptyManagers (sendToTool message outcome s) (activeTool s) = Some r
                            \<and> isDead (heap (sendToTool message outcome s) r))))"
proof (intro conjI allI impI)
  fix r assume "ptyManagers s t = Some r \<and> \<not> isDead (heap s r)"
  then have "live_manager s t = Some r" by (simp add: live_manager_Some)
  then show "getOrCreateManager t w ok s = (Inr r, s)" by (simp add: getOrCreateManager_def)
next
  fix a
  assume h: "registry s t = Some a
      \<and> (ptyManagers s t = None \<or> (\<exists>r. ptyManagers s t = Some r \<and> isDead (heap s r)))"
  then have l: "live_manager s t = None" by (simp add: live_manager_None)
  from h l have e: "getOrCreateManager t w ok s
      = (if ok then Inr (nextRef s) else Inl SpawnError,
         s\<lparr>heap := (heap s)(nextRef s := (if ok then spawn w (new_manager a) else new_manager a)),
           nextRef := Suc (nextRef s), ptyManagers := (ptyManagers s)(t \<mapsto> nextRef s),
           spawnLog := spawnLog s @ [nextRef s]\<rparr>)"
    by (simp add: getOrCreateManager_def Let_def update_manager_def)
  show "fst (getOrCreateManager t w ok s) = (if ok then Inr (nextRef s) else Inl SpawnError)"
    "ptyManagers (snd (getOrCreateManager t w ok s)) = (ptyManagers s)(t \<mapsto> nextRef s)"
    "heap (snd (getOrCreateManager t w ok s))
       = (heap s)(nextRef s := (if ok then spawn w (new_manager a) else new_manager a))"
    "spawnLog (snd (getOrCreateManager t w ok s)) = spawnLog s @ [nextRef s]"
    "nextRef (snd (getOrCreateManager t w ok s)) = Suc (nextRef s)"
    by (simp_all add: e)
  fix t' r assume "ptyManagers s t' = Some r"
  moreover from reachable_inv[OF assms] have "wf_registry s" by (simp add: run_inv_def)
  ultimately have "r < nextRef s" by (simp add: wf_registry_def)
  then show "r \<noteq> nextRef s" by simp
next
  assume "m = Prompting \<and> \<not> requestInProgress s"
  with assms show "reachable (Prompting, sendToTool message outcome s)"
    by (auto intro: reachable.send)
next
  assume "m = Prompting \<and> \<not> requestInProgress s"
  then have "live_manager (sendToTool message outcome s) (activeTool s) = None"
    by (simp add: sendToTool_not_live)
  then show "ptyManagers (sendToTool message outcome s) (activeTool s) = None
      \<or> (\<exists>r. ptyManagers (sendToTool message outcome s) (activeTool s) = Some r
             \<and> isDead (heap (sendToTool message outcome s) r))"
    by (simp add: live_manager_None)
qed

theorem getOrCreateManager_reuses_or_spawns_witness:
  "ptyManagers attached_session ''claude'' = Some 0 \<and> \<not> isDead (heap attached_session 0)
   \<and> getOrCreateManager ''claude'' False True attached_session = (Inr 0, attached_session)
   \<and> registry fresh_session ''gemini'' = Some gemini_adapter
   \<and> ptyManagers fresh_session ''gemini'' = None
   \<and> fst (getOrCreateManager ''gemini'' False True fresh_session) = Inr 0
   \<and> ptyManagers (snd (getOrCreateManager ''gemini'' False True fresh_session)) ''gemini''
       = Some 0
   \<and> spawnLog (snd (getOrCreateManager ''gemini'' False True fresh_session)) = [0]
   \<and> ptyManagers (onStdinData 1000 [0x1D] attached_session) ''claude'' = Some 0
   \<and> \<not> requestInProgress (onStdinData 1000 [0x1D] attached_session)
   \<and> fst (getOrCreateManager ''claude'' False True
             (sendToTool [0x68] (Inr [0x6F]) (onStdinData 1000 [0x1D] attached_session)))
       = Inr 1
   \<and> spawnLog (snd (getOrCreateManager ''claude'' False True
             (sendToTool [0x68] (Inr [0x6F]) (onStdinData 1000 [0x1D] attached_session))))
       = [0, 1]"
proof -
  let ?D = "onStdinData 1000 [0x1D] attached_session"
  let ?S = "sendToTool [0x68] (Inr [0x6F]) ?D"
  have nd: "\<not> detached attached_session" "\<not> cleanedUp attached_session"
    by (simp_all add: attached_session_def)
  have "detached ?D" unfolding detach_chunk_state by (rule performDetach_effect(1)[OF nd])
  with reachable.input[OF attached_session_reachable, of 1000 "[0x1D]"]
  have rD: "reachable (Prompting, ?D)" by simp
  have a: "ptyManagers attached_session ''claude'' = Some 0"
    "\<not> isDead (heap attached_session 0)"
    by (simp_all add: attached_session_def isDead_def attach_def spawn_def new_manager_def)
  have g: "registry fresh_session ''gemini'' = Some gemini_adapter"
    "ptyManagers fresh_session ''gemini'' = None" "nextRef fresh_session = 0"
    "spawnLog fresh_session = []"
    by (simp_all add: fresh_session_def new_session_def two_tools_def)
  have D: "ptyManagers ?D ''claude'' = Some 0" "\<not> requestInProgress ?D"
    "activeTool ?D = ''claude''" "nextRef ?D = 1" "registry ?D = two_tools"
    "spawnLog ?D = [0]"
    unfolding detach_chunk_state
    by (simp_all add: performDetach_def Let_def session_cleanup_def update_manager_def
        emit_def attached_session_def attach_def spawn_def new_manager_def)
  have S: "nextRef ?S = 1" "registry ?S ''claude'' = Some claude_adapter"
    by (simp_all add: sendToTool_fields D two_tools_def)
  have SL: "spawnLog ?S = [0]"
    using D(2,6)
    by (simp add: sendToTool_def Let_def request_failed_def emit_def push_history_def
        kill_existing_def update_manager_def split: option.splits)
  note t1 = getOrCreateManager_reuses_or_spawns[OF attached_session_reachable,
      of "''claude''" False True]
  note t2 = getOrCreateManager_reuses_or_spawns[OF fresh_session_reachable,
      of "''gemini''" False True]
  note t3 = getOrCreateManager_reuses_or_spawns[OF rD, of "''claude''" False True
      "[0x68]" "Inr [0x6F]"]
  from t3 D have rS: "reachable (Prompting, ?S)"
    and dead: "ptyManagers ?S ''claude'' = None
       \<or> (\<exists>r. ptyManagers ?S ''claude'' = Some r \<and> isDead (heap ?S r))" by simp_all
  note t4 = getOrCreateManager_reuses_or_spawns[OF rS, of "''claude''" False True]
  from t1 a have w1: "getOrCreateManager ''claude'' False True attached_session
      = (Inr 0, attached_session)" by blast
  from t2 g have w2: "fst (getOrCreateManager ''gemini'' False True fresh_session) = Inr 0"
    "ptyManagers (snd (getOrCreateManager ''gemini'' False True fresh_session)) ''gemini''
       = Some 0"
    "spawnLog (snd (getOrCreateManager ''gemini'' False True fresh_session)) = [0]"
    by simp_all
  from t4 S dead SL have w3: "fst (getOrCreateManager ''claude'' False True ?S) = Inr 1"
    "spawnLog (snd (getOrCreateManager ''claude'' False True ?S)) = [0, 1]"
    by simp_all
  from a g(1,2) D(1,2) w1 w2 w3 show ?thesis by simp
qed










end
